theory Spec2Isabelle
  imports Complex_Main "HOL-Library.Multiset"
begin

section \<open>Spine dashboard: the analysis core of \<^verbatim>\<open>spine_dashboard.py\<close>\<close>

text \<open>
  The development embeds the three functions of the analysis core,
  \<^verbatim>\<open>compute_angle_from_accel\<close>, \<^verbatim>\<open>build_spine_from_angles\<close> and
  \<^verbatim>\<open>load_and_analyze_csv\<close>, as HOL functions.

  Conventions of the embedding.
  \<^item> Python's unbounded \<^verbatim>\<open>int\<close> is \<^typ>\<open>int\<close>.
  \<^item> Python's \<^verbatim>\<open>float\<close> is idealised as \<^typ>\<open>real\<close>: rounding is not modelled, so
    \<^verbatim>\<open>math.sqrt\<close>, \<^verbatim>\<open>math.sin\<close>, \<^verbatim>\<open>math.cos\<close>, \<^verbatim>\<open>math.atan2\<close> and the arithmetic are
    the exact mathematical functions.
  \<^item> The one effect of the finite range of a double that is kept is the exception
    Python raises when an \<^verbatim>\<open>int\<close> that does not fit a double is converted to
    \<^verbatim>\<open>float\<close> (by \<^verbatim>\<open>math.sqrt\<close>, \<^verbatim>\<open>math.atan2\<close> and \<^verbatim>\<open>int / float\<close>): functions that
    perform such a conversion return \<open>error + 'a\<close>, with \<open>Inl OverflowError\<close> for the
    exception.
  \<^item> A \<^verbatim>\<open>dict\<close> is an association list with distinct keys in insertion order, which is
    the order Python iterates it in.
  \<^item> The file is what the function observes of it: either \<^verbatim>\<open>open\<close> raises, or the
    iteration over \<^verbatim>\<open>csv.DictReader\<close> yields rows and then ends or raises. These
    exceptions are not caught by the source (only the five \<^verbatim>\<open>int\<close> conversions are inside
    the \<^verbatim>\<open>try\<close>), so they are results \<open>Inl (FileError name)\<close> of the embedding.
  \<^item> The progress messages that the function prints are not part of the embedding, which
    describes the runs in which they are written without an exception; the one message
    that a claim is about, that of the trimming, is returned by \<open>trim_rows\<close>. Interrupts and
    the exhaustion of memory are outside the embedding as well.
\<close>

subsection \<open>Errors and conversions to float\<close>

text \<open>
  The exceptions the analysis can meet after the rows are read: the conversion of a too
  large \<^verbatim>\<open>int\<close> to \<^verbatim>\<open>float\<close>, an index into an empty list, and a division by zero. Before
  that, \<open>FileError name\<close> is the exception that \<^verbatim>\<open>open\<close>, the iteration over the reader or
  the closing of the file raises, with the name of its class (\<^verbatim>\<open>FileNotFoundError\<close>,
  \<^verbatim>\<open>UnicodeDecodeError\<close>, \<^verbatim>\<open>_csv.Error\<close>, ...).
\<close>

datatype error = OverflowError | IndexError | ZeroDivisionError | FileError string

text \<open>Sequencing: the first exception ends the computation.\<close>

definition ebind :: "error + 'a \<Rightarrow> ('a \<Rightarrow> error + 'b) \<Rightarrow> error + 'b" where
  "ebind m f = (case m of Inl e \<Rightarrow> Inl e | Inr x \<Rightarrow> f x)"

text \<open>
  \<^verbatim>\<open>int\<close> to \<^verbatim>\<open>float\<close>: the conversion rounds to the nearest double and raises
  \<^verbatim>\<open>OverflowError\<close> when the rounded value would exceed the largest double,
  \<open>2^1024 - 2^971\<close>; that is from \<open>2^1024 - 2^970\<close> on.
\<close>

definition float_limit :: int where
  "float_limit = 2 ^ 1024 - 2 ^ 970"

definition float_of_int :: "int \<Rightarrow> error + real" where
  "float_of_int n = (if \<bar>n\<bar> < float_limit then Inr (real_of_int n) else Inl OverflowError)"

text \<open>Float division, \<^verbatim>\<open>a / b\<close>.\<close>

definition py_div :: "real \<Rightarrow> real \<Rightarrow> error + real" where
  "py_div a b = (if b = 0 then Inl ZeroDivisionError else Inr (a / b))"

text \<open>\<^verbatim>\<open>math.atan2(y, x)\<close>, the angle of the point \<open>(x, y)\<close> in \<open>(-pi, pi]\<close>.\<close>

definition atan2 :: "real \<Rightarrow> real \<Rightarrow> real" where
  "atan2 y x =
     (if 0 < x then arctan (y / x)
      else if x < 0 then (if 0 \<le> y then arctan (y / x) + pi else arctan (y / x) - pi)
      else if 0 < y then pi / 2
      else if y < 0 then - (pi / 2)
      else 0)"

subsection \<open>Angle estimator: \<^verbatim>\<open>compute_angle_from_accel\<close>\<close>

definition scale :: real where
  "scale = 8192"

text \<open>\<^verbatim>\<open>deadzoneRaw = int(0.03 * scale)\<close>; \<^verbatim>\<open>int\<close> truncates, which on a positive
  value is the floor.\<close>

definition deadzoneRaw :: int where
  "deadzoneRaw = \<lfloor>0.03 * scale\<rfloor>"

definition compute_angle_from_accel :: "int \<Rightarrow> int \<Rightarrow> int \<Rightarrow> error + real" where
  "compute_angle_from_accel ax ay az =
     (let xRaw = (if ax \<noteq> 0 then ax else 10);
          yUsed = (if \<bar>ay\<bar> < deadzoneRaw then 0 else ay);
          zUsed = (if \<bar>az\<bar> < deadzoneRaw then 0 else az)
      in case float_of_int (yUsed * yUsed + zUsed * zUsed) of
           Inl e \<Rightarrow> Inl e
         | Inr s \<Rightarrow>
             (case float_of_int \<bar>xRaw\<bar> of
                Inl e \<Rightarrow> Inl e
              | Inr xa \<Rightarrow>
                  (let angle = atan2 (sqrt s) xa * 180 / pi;
                       angle = (if xRaw < 0 then 180 - angle else angle);
                       angle = (if az < 0 then - angle else angle);
                       angle = (if \<bar>xRaw\<bar> > \<lfloor>0.98 * scale\<rfloor> \<and> \<bar>yUsed\<bar> < deadzoneRaw
                                   \<and> \<bar>zUsed\<bar> < deadzoneRaw
                                then (if xRaw < 0 then 180 else 0) else angle)
                   in Inr angle)))"

subsection \<open>Curve builder: \<^verbatim>\<open>build_spine_from_angles\<close>\<close>

text \<open>\<^verbatim>\<open>math.radians\<close>.\<close>

definition radians :: "real \<Rightarrow> real" where
  "radians d = d * pi / 180"

text \<open>
  The integration loop \<^verbatim>\<open>for i in range(n - 1, -1, -1)\<close>: the index list is the range,
  the pair is \<^verbatim>\<open>(curr_x, curr_y)\<close>, and the result is \<^verbatim>\<open>locs\<close> in the order of the
  appends. Every index of the range is below \<open>n\<close>, the length of \<^verbatim>\<open>angles_centered\<close>.
\<close>

fun integrate :: "real \<Rightarrow> real list \<Rightarrow> nat list \<Rightarrow> real \<times> real \<Rightarrow> (real \<times> real) list" where
  "integrate radius angles_centered [] (curr_x, curr_y) = []"
| "integrate radius angles_centered (i # is) (curr_x, curr_y) =
     (let rad = radians (angles_centered ! i);
          dx = radius * sin rad;
          dy = radius * cos rad;
          curr_x = curr_x + dx;
          curr_y = curr_y + dy
      in (curr_x, curr_y) # integrate radius angles_centered is (curr_x, curr_y))"

text \<open>The block \<^verbatim>\<open># Center\<close>: subtract the centroid from every point.\<close>

definition center :: "(real \<times> real) list \<Rightarrow> (real \<times> real) list" where
  "center locs =
     (if locs \<noteq> [] then
        (let avg_x = sum_list (map fst locs) / real (length locs);
             avg_y = sum_list (map snd locs) / real (length locs)
         in map (\<lambda>(x, y). (x - avg_x, y - avg_y)) locs)
      else locs)"

text \<open>The function up to and including the centring, in metres.\<close>

definition centered_locs :: "real list \<Rightarrow> real \<Rightarrow> (real \<times> real) list" where
  "centered_locs angles spacing_cm =
     (let n = length angles;
          radius = spacing_cm / 100;
          angles_rev = rev angles;
          angles_centered = map (\<lambda>a. a - 0) angles_rev;
          locs = integrate radius angles_centered (rev [0..<n]) (0, - real n * radius * 0.5);
          locs = rev locs
      in center locs)"

text \<open>The whole function; every caller in the source uses the default
  \<^verbatim>\<open>spacing_cm = 9.0\<close>.\<close>

definition build_spine_from_angles :: "real list \<Rightarrow> real \<Rightarrow> (real \<times> real) list" where
  "build_spine_from_angles angles spacing_cm =
     (if angles = [] then []
      else map (\<lambda>(x, y). (x * 100, y * 100)) (centered_locs angles spacing_cm))"

text \<open>The arithmetic mean of a list of coordinates, for stating the centring property.\<close>

definition mean :: "real list \<Rightarrow> real" where
  "mean xs = sum_list xs / real (length xs)"

subsection \<open>Python containers and builtins used by the analysis\<close>

text \<open>
  \<^verbatim>\<open>d[k] = v\<close> on a dict kept as an association list in insertion order: an existing key
  keeps its place and gets the new value, a new key goes to the end. Lookup is
  \<^const>\<open>map_of\<close>.
\<close>

fun dict_set :: "('k \<times> 'v) list \<Rightarrow> 'k \<Rightarrow> 'v \<Rightarrow> ('k \<times> 'v) list" where
  "dict_set [] k v = [(k, v)]"
| "dict_set ((k', v') # d) k v = (if k' = k then (k, v) # d else (k', v') # dict_set d k v)"

text \<open>Reading \<^verbatim>\<open>d[k]\<close> from a \<^verbatim>\<open>defaultdict(list)\<close>: a missing key reads as the empty
  list.\<close>

definition dict_get_list :: "('k \<times> 'v list) list \<Rightarrow> 'k \<Rightarrow> 'v list" where
  "dict_get_list d k = (case map_of d k of None \<Rightarrow> [] | Some l \<Rightarrow> l)"

text \<open>\<^verbatim>\<open>min\<close> and \<^verbatim>\<open>max\<close> of a list; the source calls them on non-empty lists only.\<close>

definition py_min :: "'a::linorder list \<Rightarrow> 'a" where
  "py_min xs = fold min (tl xs) (hd xs)"

definition py_max :: "'a::linorder list \<Rightarrow> 'a" where
  "py_max xs = fold max (tl xs) (hd xs)"

text \<open>
  The extended slice \<^verbatim>\<open>xs[::k]\<close> for \<open>k \<ge> 1\<close> is \<open>slice_step k 0 xs\<close>: the second argument
  counts the elements still to skip before the next one is taken.
\<close>

fun slice_step :: "nat \<Rightarrow> nat \<Rightarrow> 'a list \<Rightarrow> 'a list" where
  "slice_step k skip [] = []"
| "slice_step k skip (x # xs) =
     (if skip = 0 then x # slice_step k (k - 1) xs else slice_step k (skip - 1) xs)"

text \<open>\<^verbatim>\<open>str\<close> of an \<^verbatim>\<open>int\<close>: the decimal digits, with a minus sign for a negative number.\<close>

fun nat_digits :: "nat \<Rightarrow> string" where
  "nat_digits n =
     (if n < 10 then [''0123456789'' ! n]
      else nat_digits (n div 10) @ [''0123456789'' ! (n mod 10)])"

declare nat_digits.simps [simp del]

definition py_str :: "int \<Rightarrow> string" where
  "py_str i = (if i < 0 then CHR ''-'' # nat_digits (nat (- i)) else nat_digits (nat i))"

subsection \<open>Record loader: reading and trimming the rows\<close>

text \<open>
  A parsed row is the tuple \<^verbatim>\<open>(ts, sid, ax, ay, az)\<close>. A row as \<^verbatim>\<open>csv.DictReader\<close> yields
  it maps column names to strings; a column that the header or the line lacks reads as
  \<open>None\<close> here (in Python the subscript raises \<^verbatim>\<open>KeyError\<close>, or yields \<^verbatim>\<open>None\<close> on which
  \<^verbatim>\<open>int\<close> raises \<^verbatim>\<open>TypeError\<close>). The builtin \<^verbatim>\<open>int\<close> on a string is the parameter
  \<open>py_int\<close>, with \<open>None\<close> for its \<^verbatim>\<open>ValueError\<close>.
\<close>

type_synonym row = "int \<times> int \<times> int \<times> int \<times> int"







text \<open>
  The block \<^verbatim>\<open># Chop first and last 5 minutes of data\<close>. It returns the filtered rows
  and the message it prints: \<open>Removed removed_count remaining\<close> for the two lines
  "Removed ... samples (first/last 5 minutes)" and "Remaining ... samples", and
  \<open>NoDataRemoved\<close> for "Warning: Data duration is less than 10 minutes, no data removed".
\<close>

datatype diagnostic = Removed nat nat | NoDataRemoved

definition FIVE_MINUTES_MS :: int where
  "FIVE_MINUTES_MS = 5 * 60 * 1000"

definition trim_rows :: "row list \<Rightarrow> row list \<times> diagnostic option" where
  "trim_rows rows =
     (if length rows > 0 then
        (let timestamps = map fst rows;
             first_timestamp = py_min timestamps;
             last_timestamp = py_max timestamps;
             start_cutoff = first_timestamp + FIVE_MINUTES_MS;
             end_cutoff = last_timestamp - FIVE_MINUTES_MS;
             original_count = length rows;
             rows' = filter (\<lambda>row. start_cutoff \<le> fst row \<and> fst row \<le> end_cutoff) rows;
             removed_count = original_count - length rows'
         in (rows', Some (if removed_count > 0 then Removed removed_count (length rows')
                          else NoDataRemoved)))
      else (rows, None))"

subsection \<open>Cycle reconstructor\<close>

text \<open>
  A cycle is the dict \<^verbatim>\<open>current_cycle\<close>, from \<^verbatim>\<open>sid\<close> to \<^verbatim>\<open>(ts, angle)\<close>. The state of the
  grouping loop is its three variables.
\<close>

type_synonym cycle = "(int \<times> (int \<times> real)) list"

record cycle_state =
  reading_cycles :: "(int \<times> cycle) list"
  current_cycle :: cycle
  current_cycle_start_time :: "int option"

definition CYCLE_WINDOW_MS :: int where
  "CYCLE_WINDOW_MS = 100"

text \<open>The condition of the \<^verbatim>\<open>if\<close> in the loop; \<^verbatim>\<open>or\<close> evaluates left to right, so the
  subtraction is reached only with a start time.\<close>

definition starts_new_cycle :: "cycle_state \<Rightarrow> int \<Rightarrow> int \<Rightarrow> bool" where
  "starts_new_cycle s ts sid =
     (case current_cycle_start_time s of
        None \<Rightarrow> True
      | Some start \<Rightarrow> sid \<in> fst ` set (current_cycle s) \<or> ts - start > CYCLE_WINDOW_MS)"

text \<open>
  \<^verbatim>\<open>if current_cycle: reading_cycles.append((current_cycle_start_time, dict(current_cycle)))\<close>,
  the list of cycles after it. The source has it twice, inside the loop and after it.
  A non-empty \<^verbatim>\<open>current_cycle\<close> always has a start time (lemma \<open>cycle_loop_inv\<close> below), so
  the last case is never reached. The value \<^verbatim>\<open>avg_time\<close> that the loop also computes is
  never used and is left out: the sum of the tuples is their concatenation starting with
  \<^verbatim>\<open>(0, [])\<close>, of which it takes the element 0, so the statement does not raise (on
  Python 3.8 or later, where \<^verbatim>\<open>sum\<close> takes \<^verbatim>\<open>start\<close> as a keyword).
\<close>

definition flush :: "cycle_state \<Rightarrow> (int \<times> cycle) list" where
  "flush s =
     (case current_cycle_start_time s of
        Some start \<Rightarrow>
          (if current_cycle s \<noteq> [] then reading_cycles s @ [(start, current_cycle s)]
           else reading_cycles s)
      | None \<Rightarrow> reading_cycles s)"

text \<open>One iteration of the loop, after the angle is computed.\<close>

definition cycle_step :: "cycle_state \<Rightarrow> int \<Rightarrow> int \<Rightarrow> real \<Rightarrow> cycle_state" where
  "cycle_step s ts sid angle =
     (if starts_new_cycle s ts sid then
        \<lparr>reading_cycles = flush s, current_cycle = [(sid, (ts, angle))],
         current_cycle_start_time = Some ts\<rparr>
      else s\<lparr>current_cycle := dict_set (current_cycle s) sid (ts, angle)\<rparr>)"

fun cycle_loop :: "cycle_state \<Rightarrow> row list \<Rightarrow> error + cycle_state" where
  "cycle_loop s [] = Inr s"
| "cycle_loop s ((ts, sid, ax, ay, az) # rows) =
     ebind (compute_angle_from_accel ax ay az)
       (\<lambda>angle. cycle_loop (cycle_step s ts sid angle) rows)"

definition initial_state :: cycle_state where
  "initial_state = \<lparr>reading_cycles = [], current_cycle = [], current_cycle_start_time = None\<rparr>"

text \<open>The loop from the initial state, and the flush of the last cycle.\<close>

definition group_reading_cycles :: "row list \<Rightarrow> error + (int \<times> cycle) list" where
  "group_reading_cycles rows = ebind (cycle_loop initial_state rows) (\<lambda>s. Inr (flush s))"

subsection \<open>Time frames and sensor series\<close>

text \<open>\<^verbatim>\<open>time_frames\<close>: from the cycle time to the dict from \<^verbatim>\<open>sid\<close> to angle.\<close>

definition build_time_frames :: "(int \<times> cycle) list \<Rightarrow> (int \<times> (int \<times> real) list) list" where
  "build_time_frames cycles =
     fold (\<lambda>(cycle_time, cycle_data) time_frames.
             dict_set time_frames cycle_time (map (\<lambda>(sid, (ts, angle)). (sid, angle)) cycle_data))
       cycles []"

text \<open>An entry \<^verbatim>\<open>{'time': ts/1000.0, 'angle': angle, 'ts_ms': ts}\<close> of \<^verbatim>\<open>sensor_data\<close>.\<close>

record datum =
  d_time :: real
  d_angle :: real
  d_ts_ms :: int

text \<open>The inner and the outer loop that fill \<^verbatim>\<open>sensor_data\<close>; \<^verbatim>\<open>ts/1000.0\<close> converts the
  timestamp to float. The set \<^verbatim>\<open>all_sensor_ids\<close> is only printed and is left out.\<close>

fun sensor_data_cycle ::
  "(int \<times> datum list) list \<Rightarrow> cycle \<Rightarrow> error + (int \<times> datum list) list" where
  "sensor_data_cycle sensor_data [] = Inr sensor_data"
| "sensor_data_cycle sensor_data ((sid, (ts, angle)) # cycle_data) =
     ebind (float_of_int ts) (\<lambda>t.
       sensor_data_cycle
         (dict_set sensor_data sid
            (dict_get_list sensor_data sid
               @ [\<lparr>d_time = t / 1000, d_angle = angle, d_ts_ms = ts\<rparr>]))
         cycle_data)"

fun build_sensor_data ::
  "(int \<times> datum list) list \<Rightarrow> (int \<times> cycle) list \<Rightarrow> error + (int \<times> datum list) list" where
  "build_sensor_data sensor_data [] = Inr sensor_data"
| "build_sensor_data sensor_data ((cycle_time, cycle_data) # cycles) =
     ebind (sensor_data_cycle sensor_data cycle_data)
       (\<lambda>sensor_data. build_sensor_data sensor_data cycles)"

subsection \<open>Frame sampler and spine curves\<close>

text \<open>An entry \<^verbatim>\<open>{'time': ..., 'points': ..., 'angles': ...}\<close> of \<^verbatim>\<open>spine_curves\<close>.\<close>

record frame =
  f_time :: real
  f_points :: "(real \<times> real) list"
  f_angles :: "real list"

text \<open>\<^verbatim>\<open>[time_frames[ts].get(sid, 0) for sid in sensor_order]\<close>.\<close>

definition frame_angles_of :: "(int \<times> real) list \<Rightarrow> int list \<Rightarrow> real list" where
  "frame_angles_of time_frame sensor_order =
     map (\<lambda>sid. case map_of time_frame sid of None \<Rightarrow> 0 | Some a \<Rightarrow> a) sensor_order"

text \<open>
  The loop over \<^verbatim>\<open>sampled_timestamps\<close>; the third argument is \<^verbatim>\<open>spine_curves\<close> so far.
  \<^verbatim>\<open>any(frame_angles)\<close> holds when some angle is not zero.
\<close>

fun build_spine_curves ::
  "(int \<times> (int \<times> real) list) list \<Rightarrow> int list \<Rightarrow> frame list \<Rightarrow> int list
     \<Rightarrow> error + frame list" where
  "build_spine_curves time_frames sensor_order spine_curves [] = Inr spine_curves"
| "build_spine_curves time_frames sensor_order spine_curves (ts # sampled_timestamps) =
     (case map_of time_frames ts of
        None \<Rightarrow> build_spine_curves time_frames sensor_order spine_curves sampled_timestamps
      | Some time_frame \<Rightarrow>
          (let frame_angles = frame_angles_of time_frame sensor_order in
           if list_ex (\<lambda>a. a \<noteq> 0) frame_angles then
             (let spine_points = build_spine_from_angles frame_angles 9 in
              ebind (float_of_int ts) (\<lambda>t.
                build_spine_curves time_frames sensor_order
                  (spine_curves
                     @ [\<lparr>f_time = t / 1000, f_points = spine_points, f_angles = frame_angles\<rparr>])
                  sampled_timestamps))
           else build_spine_curves time_frames sensor_order spine_curves sampled_timestamps))"

text \<open>The stride of the sampling, \<^verbatim>\<open>max(1, len(timestamps)//500)\<close>.\<close>

definition sample_stride :: "nat \<Rightarrow> nat" where
  "sample_stride n = max 1 (n div 500)"

subsection \<open>Metrics aggregator\<close>

text \<open>The expression \<^verbatim>\<open>max(angles) - min(angles) if angles else 0\<close>, which the source
  writes out for the per-sensor, the total and the three section ranges of motion.\<close>

definition rom :: "real list \<Rightarrow> real" where
  "rom angles = (if angles \<noteq> [] then py_max angles - py_min angles else 0)"

text \<open>\<^verbatim>\<open>[d['angle'] for d in sensor_data[sid]]\<close>.\<close>

definition sensor_angles :: "(int \<times> datum list) list \<Rightarrow> int \<Rightarrow> real list" where
  "sensor_angles sensor_data sid = map d_angle (dict_get_list sensor_data sid)"

definition avg_angles_of :: "(int \<times> datum list) list \<Rightarrow> int list \<Rightarrow> real list" where
  "avg_angles_of sensor_data sensor_order =
     map (\<lambda>sid. let angles_for_sensor = sensor_angles sensor_data sid in
                 if angles_for_sensor \<noteq> []
                 then sum_list angles_for_sensor / real (length angles_for_sensor)
                 else 0) sensor_order"

text \<open>The loop \<^verbatim>\<open>for sid, data in sensor_data.items()\<close> that fills \<^verbatim>\<open>all_angles\<close> and
  \<^verbatim>\<open>sensor_roms\<close>.\<close>

fun metrics_loop ::
  "real list \<times> (int \<times> real) list \<Rightarrow> (int \<times> datum list) list
     \<Rightarrow> real list \<times> (int \<times> real) list" where
  "metrics_loop (all_angles, sensor_roms) [] = (all_angles, sensor_roms)"
| "metrics_loop (all_angles, sensor_roms) ((sid, data) # items) =
     (let angles = map d_angle data in
      metrics_loop (all_angles @ angles, dict_set sensor_roms sid (rom angles)) items)"

text \<open>
  The curvature: the inner loop over \<^verbatim>\<open>curve['points'][1:-1]\<close> and the outer loop over
  \<^verbatim>\<open>spine_curves\<close>. The distance divides by the length of the chord when the two end
  points differ.
\<close>

fun curvature_points ::
  "real \<times> real \<Rightarrow> real \<times> real \<Rightarrow> real \<Rightarrow> (real \<times> real) list \<Rightarrow> error + real" where
  "curvature_points first last_pt max_curvature [] = Inr max_curvature"
| "curvature_points first last_pt max_curvature (point # points) =
     ebind (if first \<noteq> last_pt then
              py_div \<bar>(snd last_pt - snd first) * fst point - (fst last_pt - fst first) * snd point
                       + fst last_pt * snd first - snd last_pt * fst first\<bar>
                     (sqrt ((snd last_pt - snd first)\<^sup>2 + (fst last_pt - fst first)\<^sup>2))
            else Inr 0)
       (\<lambda>dist. curvature_points first last_pt (max max_curvature dist) points)"

fun curvature_loop :: "real \<Rightarrow> frame list \<Rightarrow> error + real" where
  "curvature_loop max_curvature [] = Inr max_curvature"
| "curvature_loop max_curvature (curve # spine_curves) =
     (if length (f_points curve) \<ge> 2 then
        ebind (curvature_points (hd (f_points curve)) (last (f_points curve)) max_curvature
                 (butlast (tl (f_points curve))))
          (\<lambda>max_curvature. curvature_loop max_curvature spine_curves)
      else curvature_loop max_curvature spine_curves)"

subsection \<open>The analysis: \<^verbatim>\<open>load_and_analyze_csv\<close>\<close>

text \<open>The returned dict, one field per key.\<close>

record analysis_result =
  r_filename :: string
  r_sensors :: nat
  r_samples :: nat
  r_duration :: real
  r_total_rom :: real
  r_upper_rom :: real
  r_middle_rom :: real
  r_lower_rom :: real
  r_avg_angle :: real
  r_movement_score :: real
  r_max_curvature :: real
  r_sensor_roms :: "(string \<times> real) list"
  r_spine_curves :: "frame list"
  r_avg_spine :: "(real \<times> real) list"
  r_sensor_order :: "string list"

text \<open>
  The statements from \<^verbatim>\<open># Calculate average spine position\<close> to the \<^verbatim>\<open>return\<close> that
  cannot raise: the average spine, the metrics loop, the ranges of motion and the
  returned dict. \<open>file_name\<close> is \<^verbatim>\<open>Path(file_path).name\<close> and \<open>n_rows\<close> is \<^verbatim>\<open>len(rows)\<close>;
  \<open>duration\<close> and \<open>max_curvature\<close> are computed by the two statements among them that can
  raise, which follow.
\<close>

definition summary ::
  "string \<Rightarrow> nat \<Rightarrow> (int \<times> datum list) list \<Rightarrow> int list \<Rightarrow> frame list \<Rightarrow> real \<Rightarrow> real
     \<Rightarrow> analysis_result" where
  "summary file_name n_rows sensor_data sensor_order spine_curves duration max_curvature =
     (let avg_angles = avg_angles_of sensor_data sensor_order;
          avg_spine = build_spine_from_angles avg_angles 9;
          (all_angles, sensor_roms) = metrics_loop ([], []) sensor_data;
          total_rom = rom all_angles;
          n = length sensor_order;
          upper = take (n div 3) sensor_order;
          middle = drop (n div 3) (take (2 * n div 3) sensor_order);
          lower = drop (2 * n div 3) sensor_order;
          upper_angles = concat (map (sensor_angles sensor_data) upper);
          middle_angles = concat (map (sensor_angles sensor_data) middle);
          lower_angles = concat (map (sensor_angles sensor_data) lower);
          upper_rom = rom upper_angles;
          middle_rom = rom middle_angles;
          lower_rom = rom lower_angles
      in \<lparr>r_filename = file_name,
          r_sensors = length sensor_data,
          r_samples = n_rows,
          r_duration = duration,
          r_total_rom = total_rom,
          r_upper_rom = upper_rom,
          r_middle_rom = middle_rom,
          r_lower_rom = lower_rom,
          r_avg_angle =
            (if all_angles \<noteq> [] then sum_list all_angles / real (length all_angles) else 0),
          r_movement_score = (if duration > 0 then total_rom / duration else 0),
          r_max_curvature = max_curvature,
          r_sensor_roms = fold (\<lambda>(sid, rom) d. dict_set d (py_str sid) rom) sensor_roms [],
          r_spine_curves = spine_curves,
          r_avg_spine = avg_spine,
          r_sensor_order = map py_str sensor_order\<rparr>)"

text \<open>\<^verbatim>\<open>duration = (timestamps[-1] - timestamps[0]) / 1000.0\<close>: the subscripts raise on an
  empty list and the division converts the difference to float.\<close>

definition session_duration :: "int list \<Rightarrow> error + real" where
  "session_duration timestamps =
     (if timestamps = [] then Inl IndexError
      else ebind (float_of_int (last timestamps - hd timestamps)) (\<lambda>d. Inr (d / 1000)))"

text \<open>
  The function from \<^verbatim>\<open># Build time_frames from reading cycles\<close> to the \<^verbatim>\<open>return\<close>, with
  the statements that can raise in the order of the source: the sensor series, the
  spine curves, the duration and the curvature. The stride of the frame sampling is the
  parameter \<open>stride\<close>, a function of the number of timestamps, so that the analysis as
  the source has it (\<^const>\<open>sample_stride\<close>) can be compared with the analysis without
  sampling.
\<close>

definition analyze_cycles ::
  "(nat \<Rightarrow> nat) \<Rightarrow> string \<Rightarrow> nat \<Rightarrow> (int \<times> cycle) list \<Rightarrow> error + analysis_result" where
  "analyze_cycles stride file_name n_rows cycles =
     (let time_frames = build_time_frames cycles in
      ebind (build_sensor_data [] cycles) (\<lambda>sensor_data.
      let timestamps = sort (map fst time_frames);
          sensor_order = sort (map fst sensor_data);
          sampled_timestamps = slice_step (stride (length timestamps)) 0 timestamps
      in
      ebind (build_spine_curves time_frames sensor_order [] sampled_timestamps) (\<lambda>spine_curves.
      ebind (session_duration timestamps) (\<lambda>duration.
      ebind (curvature_loop 0 spine_curves) (\<lambda>max_curvature.
      Inr (summary file_name n_rows sensor_data sensor_order spine_curves duration
             max_curvature))))))"

text \<open>The function from the first \<^verbatim>\<open>if not rows: return None\<close> on, with \<open>None\<close> for
  Python's \<^verbatim>\<open>None\<close>.\<close>

definition analyze_rows_with ::
  "(nat \<Rightarrow> nat) \<Rightarrow> string \<Rightarrow> row list \<Rightarrow> error + analysis_result option" where
  "analyze_rows_with stride file_name rows =
     (if rows = [] then Inr None
      else
        (let rows = fst (trim_rows rows) in
         if rows = [] then Inr None
         else
           ebind (group_reading_cycles rows) (\<lambda>cycles.
           ebind (analyze_cycles stride file_name (length rows) cycles) (\<lambda>result.
           Inr (Some result)))))"

text \<open>The analysis of the source, with its stride.\<close>

definition analyze_rows :: "string \<Rightarrow> row list \<Rightarrow> error + analysis_result option" where
  "analyze_rows file_name rows = analyze_rows_with sample_stride file_name rows"


text \<open>
  Following the spec's words for the comparison of claim C4, "computed with no
  sampling (stride 1, all cycle timestamps)": the same analysis with stride 1.
\<close>

definition analyze_rows_unsampled :: "string \<Rightarrow> row list \<Rightarrow> error + analysis_result option" where
  "analyze_rows_unsampled file_name rows = analyze_rows_with (\<lambda>n. 1) file_name rows"


subsection \<open>Notions used to state the properties\<close>

text \<open>What holds of every cycle the reconstructor emits under start time \<open>start\<close>: it is
  not empty, its first member has the timestamp \<open>start\<close>, no sensor occurs twice, and no
  member is later than the window allows.\<close>

definition cycle_ok :: "int \<Rightarrow> cycle \<Rightarrow> bool" where
  "cycle_ok start c =
     (c \<noteq> [] \<and> fst (snd (hd c)) = start \<and> distinct (map fst c)
      \<and> list_all (\<lambda>(sid, (ts, angle)). ts - start \<le> CYCLE_WINDOW_MS) c)"

definition state_inv :: "cycle_state \<Rightarrow> bool" where
  "state_inv s =
     (list_all (\<lambda>(start, c). cycle_ok start c) (reading_cycles s)
      \<and> (case current_cycle_start_time s of
            None \<Rightarrow> current_cycle s = []
          | Some start \<Rightarrow> cycle_ok start (current_cycle s)))"

text \<open>No member of the cycle is earlier than its start time.\<close>

definition lo_ok :: "int \<Rightarrow> cycle \<Rightarrow> bool" where
  "lo_ok start c = list_all (\<lambda>(sid, (ts, angle)). start \<le> ts) c"

definition lo_inv :: "cycle_state \<Rightarrow> bool" where
  "lo_inv s =
     (list_all (\<lambda>(start, c). lo_ok start c) (reading_cycles s)
      \<and> (case current_cycle_start_time s of
            None \<Rightarrow> True
          | Some start \<Rightarrow> lo_ok start (current_cycle s)))"

text \<open>The window of claim C7 as the claim words it, on both sides of the start time.\<close>

definition two_sided_window :: "int \<Rightarrow> cycle \<Rightarrow> bool" where
  "two_sided_window start c = list_all (\<lambda>(sid, (ts, angle)). \<bar>ts - start\<bar> \<le> 100) c"

text \<open>
  The readings of all cycles in the order of emission, and the two views that relate a
  reading to the row it comes from: sensor, timestamp and the outcome of the angle
  computation.
\<close>

definition all_readings :: "(int \<times> cycle) list \<Rightarrow> (int \<times> (int \<times> real)) list" where
  "all_readings cycles = concat (map snd cycles)"

definition row_reading :: "row \<Rightarrow> int \<times> int \<times> (error + real)" where
  "row_reading r =
     (case r of (ts, sid, ax, ay, az) \<Rightarrow> (sid, ts, compute_angle_from_accel ax ay az))"

definition emitted :: "int \<times> (int \<times> real) \<Rightarrow> int \<times> int \<times> (error + real)" where
  "emitted r = (case r of (sid, (ts, angle)) \<Rightarrow> (sid, ts, Inr angle))"

text \<open>The angles of all entries of \<^verbatim>\<open>sensor_data\<close>, in the order the metrics loop
  collects them in \<^verbatim>\<open>all_angles\<close>.\<close>

definition sd_angles :: "(int \<times> datum list) list \<Rightarrow> real list" where
  "sd_angles sensor_data = concat (map (\<lambda>(sid, data). map d_angle data) sensor_data)"

text \<open>The angles of all readings of all cycles, the angle computation of a row, and the
  range of motion recomputed directly, as the maximum minus the minimum.\<close>

definition cycle_angles :: "(int \<times> cycle) list \<Rightarrow> real list" where
  "cycle_angles cycles = map (\<lambda>r. snd (snd r)) (all_readings cycles)"

definition row_angle :: "row \<Rightarrow> error + real" where
  "row_angle r = (case r of (ts, sid, ax, ay, az) \<Rightarrow> compute_angle_from_accel ax ay az)"

definition max_minus_min :: "real list \<Rightarrow> real" where
  "max_minus_min xs = (if xs = [] then 0 else Max (set xs) - Min (set xs))"

text \<open>
  A bound on the fields of a row under which no conversion to float can overflow: the
  timestamp and the three components are at most \<open>2^500\<close> in magnitude.
\<close>

definition field_bound :: int where
  "field_bound = 2 ^ 500"

definition bounded_row :: "row \<Rightarrow> bool" where
  "bounded_row r =
     (case r of (ts, sid, ax, ay, az) \<Rightarrow>
        \<bar>ts\<bar> \<le> field_bound \<and> \<bar>ax\<bar> \<le> field_bound \<and> \<bar>ay\<bar> \<le> field_bound
        \<and> \<bar>az\<bar> \<le> field_bound)"


text \<open>The maximal curvature of an outcome of the analysis, when there is one.\<close>

definition curvature_of :: "error + analysis_result option \<Rightarrow> real option" where
  "curvature_of outcome =
     (case outcome of Inr (Some res) \<Rightarrow> Some (r_max_curvature res) | _ \<Rightarrow> None)"

text \<open>The number of frames of an outcome of the analysis, when there is one.\<close>

definition frame_count :: "error + analysis_result option \<Rightarrow> nat option" where
  "frame_count outcome =
     (case outcome of Inr (Some res) \<Rightarrow> Some (length (r_spine_curves res)) | _ \<Rightarrow> None)"

subsection \<open>Concrete sessions\<close>

text \<open>
  A session of two sensors: one row before and one row after the part that the trimming
  keeps, and in between one cycle with sensor 0 at rest and sensor 1 at 45 degrees.
\<close>

definition rows0 :: "row list" where
  "rows0 = [(0, 0, 8192, 0, 0), (300000, 0, 8192, 0, 0), (300010, 1, 1000, 1000, 0),
            (600010, 0, 8192, 0, 0)]"






text \<open>
  Long sessions. \<open>steady_rows ax ay az n\<close> is \<open>n\<close> samples of sensor 0 with the same
  acceleration, 200 ms apart from 300000 ms on, and \<open>steady_times n\<close> their timestamps.
\<close>

definition steady_rows :: "int \<Rightarrow> int \<Rightarrow> int \<Rightarrow> nat \<Rightarrow> row list" where
  "steady_rows ax ay az n = map (\<lambda>i. (300000 + 200 * int i, 0, ax, ay, az)) [0..<n]"

definition steady_times :: "nat \<Rightarrow> int list" where
  "steady_times n = map (\<lambda>i. 300000 + 200 * int i) [0..<n]"

text \<open>
  A session of 501 cycles of sensor 0 at 45 degrees, between one row at 0 ms and one at
  1000000 ms, which the trimming removes.
\<close>

definition rows_501 :: "row list" where
  "rows_501 = (0, 0, 8192, 0, 0) # steady_rows 1000 1000 0 501 @ [(1000000, 0, 8192, 0, 0)]"

text \<open>
  A session of 1000 cycles: 999 cycles of sensor 0 at rest, then one cycle in which
  sensors 0 and 1 are at rest and sensor 2 is at 45 degrees; again between two rows that
  the trimming removes. \<open>bent_cycles\<close> and \<open>bent_frames\<close> are the cycles and the time frames
  of this session.
\<close>

definition bent_cycle_rows :: "row list" where
  "bent_cycle_rows =
     [(600000, 0, 8192, 0, 0), (600001, 1, 8192, 0, 0), (600002, 2, 1000, 1000, 0)]"

definition rows_bent :: "row list" where
  "rows_bent =
     (0, 0, 8192, 0, 0) # (steady_rows 8192 0 0 999 @ bent_cycle_rows)
       @ [(1000000, 0, 8192, 0, 0)]"

definition bent_cycles :: "(int \<times> cycle) list" where
  "bent_cycles =
     map (\<lambda>t. (t, [(0, (t, 0))])) (steady_times 999)
       @ [(600000, [(0, (600000, 0)), (1, (600001, 0)), (2, (600002, 45))])]"

definition bent_frames :: "(int \<times> (int \<times> real) list) list" where
  "bent_frames =
     map (\<lambda>t. (t, [(0, 0)])) (steady_times 999) @ [(600000, [(0, 0), (1, 0), (2, 45)])]"

section \<open>Properties\<close>

subsection \<open>Sequencing\<close>

lemma ebind_Inr [simp]: "ebind (Inr x) f = f x"
  by (simp add: ebind_def)

lemma ebind_Inl [simp]: "ebind (Inl e) f = Inl e"
  by (simp add: ebind_def)

lemma ebind_eq_Inr: "ebind m f = Inr y \<longleftrightarrow> (\<exists>x. m = Inr x \<and> f x = Inr y)"
  by (cases m) auto

lemma ebind_eq_Inl: "ebind m f = Inl e \<longleftrightarrow> (m = Inl e \<or> (\<exists>x. m = Inr x \<and> f x = Inl e))"
  by (cases m) auto

subsection \<open>Angle estimator\<close>

lemma deadzoneRaw_eq: "deadzoneRaw = 245"
  by (simp add: deadzoneRaw_def scale_def)

lemma float_limit_large: "8028 < float_limit"
  by (simp add: float_limit_def)

text \<open>
  Claim C5, as amended. The snap to the pole is guarded by
  \<^verbatim>\<open>abs(xRaw) > int(0.98 * scale)\<close>, a strict comparison with 8028, and by the
  truncated deadzone \<^verbatim>\<open>int(0.03 * scale)\<close>, which is 245. For every triple with
  \<open>|y|, |z| < 245\<close> and \<open>|x| > 8028\<close>, where \<open>|x|\<close> still converts to a float, the
  estimator returns exactly 0 for positive \<open>x\<close> and exactly 180 for negative \<open>x\<close>,
  whatever the sign of \<open>z\<close>.
\<close>

theorem gimbal_lock_snap:
  assumes "\<bar>ay\<bar> < deadzoneRaw" and "\<bar>az\<bar> < deadzoneRaw"
    and "8028 < \<bar>ax\<bar>" and "\<bar>ax\<bar> < float_limit"
  shows "compute_angle_from_accel ax ay az = Inr (if ax < 0 then 180 else 0)"
  using assms float_limit_large
  by (auto simp: compute_angle_from_accel_def float_of_int_def scale_def Let_def deadzoneRaw_eq)

theorem gimbal_lock_snap_witness:
  "compute_angle_from_accel (- 8192) 100 (- 200) = Inr 180
   \<and> compute_angle_from_accel 8029 (- 244) (- 3) = Inr 0"
proof -
  have "compute_angle_from_accel (- 8192) 100 (- 200) = Inr 180"
    using gimbal_lock_snap [of 100 "- 200" "- 8192"]
    by (simp add: deadzoneRaw_eq float_limit_def)
  moreover have "compute_angle_from_accel 8029 (- 244) (- 3) = Inr 0"
    using gimbal_lock_snap [of "- 244" "- 3" 8029]
    by (simp add: deadzoneRaw_eq float_limit_def)
  ultimately show ?thesis by simp
qed

text \<open>
  The claim as written fails at three places: at \<open>|x| = 8028\<close> the snap does not fire
  and a negative \<open>z\<close> turns 180 into -180; a reading of 245 is below 0.03 * 8192 = 245.76
  but is not inside the truncated deadzone; and an \<open>x\<close> that does not fit a double
  raises instead of returning an angle.
\<close>

theorem gimbal_lock_ge_8028_counterexample:
  "compute_angle_from_accel (- 8028) 0 (- 1) = Inr (- 180)
   \<and> compute_angle_from_accel 8192 245 0 \<noteq> Inr 0
   \<and> compute_angle_from_accel (2 ^ 1024) 0 0 = Inl OverflowError"
  by (simp add: compute_angle_from_accel_def float_of_int_def scale_def Let_def
      deadzoneRaw_eq float_limit_def atan2_def)

subsection \<open>Curve builder\<close>

lemma length_integrate: "length (integrate r ac is p) = length is"
  by (induction "is" arbitrary: p) (auto simp: Let_def)

lemma sum_list_shift:
  "sum_list (map (\<lambda>p. f p - c) xs) = sum_list (map f xs) - real (length xs) * (c::real)"
  by (induction xs) (auto simp: algebra_simps)

lemma sum_list_scaled: "sum_list (map (\<lambda>p. f p * (k::real)) xs) = sum_list (map f xs) * k"
  by (induction xs) (auto simp: algebra_simps)

lemma center_fst: "locs \<noteq> [] \<Longrightarrow> sum_list (map fst (center locs)) = 0"
  by (simp add: center_def Let_def o_def case_prod_unfold sum_list_shift)

lemma center_snd: "locs \<noteq> [] \<Longrightarrow> sum_list (map snd (center locs)) = 0"
  by (simp add: center_def Let_def o_def case_prod_unfold sum_list_shift)

lemma length_center: "length (center locs) = length locs"
  by (simp add: center_def Let_def)

lemma length_centered_locs: "length (centered_locs angles sp) = length angles"
  by (simp add: centered_locs_def Let_def length_center length_integrate)

lemma length_build_spine: "length (build_spine_from_angles angles sp) = length angles"
  by (simp add: build_spine_from_angles_def length_centered_locs)

text \<open>
  Claim C9. For every non-empty list of angles (and every spacing) the centred polyline
  has mean x-coordinate 0 and mean y-coordinate 0, both before the conversion to
  centimetres (\<open>centered_locs\<close>) and after it (the function's result). Floats are
  idealised as reals here, so the means are exactly 0; the tolerance of the claim
  accounts for the rounding that the idealisation leaves out.
\<close>

theorem build_spine_centered:
  assumes "angles \<noteq> []"
  shows "mean (map fst (centered_locs angles sp)) = 0
    \<and> mean (map snd (centered_locs angles sp)) = 0
    \<and> mean (map fst (build_spine_from_angles angles sp)) = 0
    \<and> mean (map snd (build_spine_from_angles angles sp)) = 0
    \<and> length (build_spine_from_angles angles sp) = length angles"
proof -
  let ?raw = "rev (integrate (sp / 100) (map (\<lambda>a. a - 0) (rev angles)) (rev [0..<length angles])
                 (0, - real (length angles) * (sp / 100) * 0.5))"
  have "length ?raw = length angles"
    by (simp add: length_integrate)
  with assms have ne: "?raw \<noteq> []"
    by (metis length_0_conv)
  have c: "centered_locs angles sp = center ?raw"
    by (simp add: centered_locs_def Let_def)
  have fx: "sum_list (map fst (centered_locs angles sp)) = 0"
    unfolding c by (rule center_fst [OF ne])
  have fy: "sum_list (map snd (centered_locs angles sp)) = 0"
    unfolding c by (rule center_snd [OF ne])
  have bx: "sum_list (map fst (build_spine_from_angles angles sp)) = 0"
    using assms fx
    by (simp add: build_spine_from_angles_def o_def case_prod_unfold sum_list_scaled)
  have bY: "sum_list (map snd (build_spine_from_angles angles sp)) = 0"
    using assms fy
    by (simp add: build_spine_from_angles_def o_def case_prod_unfold sum_list_scaled)
  show ?thesis
    using fx fy bx bY by (simp add: mean_def length_build_spine)
qed

theorem build_spine_centered_witness:
  "mean (map fst (build_spine_from_angles [0, 90] 9)) = 0
   \<and> mean (map snd (build_spine_from_angles [0, 90] 9)) = 0
   \<and> length (build_spine_from_angles [0, 90] 9) = 2"
  using build_spine_centered [of "[0, 90]" 9] by simp

subsection \<open>Record loader\<close>

lemma py_min_eq: "xs \<noteq> [] \<Longrightarrow> py_min xs = Min (set xs)"
  by (cases xs) (simp_all add: py_min_def Min.set_eq_fold [symmetric])

lemma py_max_eq: "xs \<noteq> [] \<Longrightarrow> py_max xs = Max (set xs)"
  by (cases xs) (simp_all add: py_max_def Max.set_eq_fold [symmetric])

lemma trim_rows_filter:
  "rows \<noteq> [] \<Longrightarrow>
   fst (trim_rows rows) =
     filter (\<lambda>row. Min (set (map fst rows)) + 300000 \<le> fst row
                  \<and> fst row \<le> Max (set (map fst rows)) - 300000) rows"
  by (simp add: trim_rows_def Let_def py_min_eq py_max_eq FIVE_MINUTES_MS_def)

lemma trim_drops_earliest:
  assumes "rows \<noteq> []"
  shows "length (fst (trim_rows rows)) < length rows"
proof -
  let ?m = "Min (set (map fst rows))"
  have "?m \<in> set (map fst rows)"
    using assms by (intro Min_in) auto
  then obtain r where r: "r \<in> set rows" "fst r = ?m" by auto
  then have "\<not> (?m + 300000 \<le> fst r \<and> fst r \<le> Max (set (map fst rows)) - 300000)"
    by simp
  with r(1) show ?thesis
    unfolding trim_rows_filter [OF assms]
    by (intro length_filter_less [of r])
qed

text \<open>
  Claim C1 (a defect of the code). The filter keeps the rows with
  \<open>first + 5 min \<le> ts \<le> last - 5 min\<close> whatever the span is, so the row with the smallest
  timestamp is always dropped, \<^verbatim>\<open>removed_count\<close> is never 0, and the branch that prints
  "Data duration is less than 10 minutes, no data removed" is never taken. On a session
  of 8 minutes the trimming removes every row and the analysis returns \<open>None\<close>.
\<close>

theorem trim_short_session_removes_all:
  "trim_rows [(0, 0, 8192, 0, 0), (480000, 0, 8192, 0, 0)] = ([], Some (Removed 2 0))
   \<and> analyze_rows ''log.csv'' [(0, 0, 8192, 0, 0), (480000, 0, 8192, 0, 0)] = Inr None"
  by (simp add: analyze_rows_def analyze_rows_with_def trim_rows_def Let_def py_min_def
      py_max_def FIVE_MINUTES_MS_def)

text \<open>The same for every non-empty row list: the message is always the removal.\<close>

lemma trim_never_warns:
  "rows \<noteq> [] \<Longrightarrow>
   snd (trim_rows rows) =
     Some (Removed (length rows - length (fst (trim_rows rows))) (length (fst (trim_rows rows))))"
  using trim_drops_earliest [of rows]
  by (simp add: trim_rows_def Let_def)

subsection \<open>Cycle reconstructor\<close>

lemma angle_at_rest: "compute_angle_from_accel 8192 0 0 = Inr 0"
  by (simp add: compute_angle_from_accel_def float_of_int_def scale_def Let_def
      deadzoneRaw_eq float_limit_def atan2_def)

lemma dict_set_new: "k \<notin> fst ` set d \<Longrightarrow> dict_set d k v = d @ [(k, v)]"
  by (induction d) auto

lemma state_inv_initial: "state_inv initial_state"
  by (simp add: state_inv_def initial_state_def)

lemma state_inv_step: "state_inv s \<Longrightarrow> state_inv (cycle_step s ts sid angle)"
  by (auto simp: state_inv_def cycle_step_def starts_new_cycle_def flush_def cycle_ok_def
      dict_set_new CYCLE_WINDOW_MS_def split: option.splits)

lemma cycle_loop_inv: "cycle_loop s rows = Inr s' \<Longrightarrow> state_inv s \<Longrightarrow> state_inv s'"
  by (induction s rows arbitrary: s' rule: cycle_loop.induct)
     (auto simp: ebind_eq_Inr state_inv_step)

lemma state_inv_flush: "state_inv s \<Longrightarrow> list_all (\<lambda>(start, c). cycle_ok start c) (flush s)"
  by (auto simp: state_inv_def flush_def split: option.splits)

lemma group_cycles_ok:
  "group_reading_cycles rows = Inr cycles \<Longrightarrow> list_all (\<lambda>(start, c). cycle_ok start c) cycles"
  by (auto simp: group_reading_cycles_def ebind_eq_Inr
      dest!: cycle_loop_inv [OF _ state_inv_initial] state_inv_flush)

text \<open>With timestamps in non-decreasing order no member precedes its cycle's start.\<close>

lemma lo_inv_step:
  "lo_inv s \<Longrightarrow> (\<And>start. current_cycle_start_time s = Some start \<Longrightarrow> start \<le> ts)
   \<Longrightarrow> lo_inv (cycle_step s ts sid angle)"
  by (auto simp: lo_inv_def lo_ok_def cycle_step_def starts_new_cycle_def flush_def
      dict_set_new split: option.splits)

lemma start_time_step:
  "current_cycle_start_time (cycle_step s ts sid angle) = Some start \<Longrightarrow>
   start = ts \<or> current_cycle_start_time s = Some start"
  by (auto simp: cycle_step_def split: if_splits)

lemma cycle_loop_lo:
  "cycle_loop s rows = Inr s' \<Longrightarrow> sorted (map fst rows) \<Longrightarrow> lo_inv s \<Longrightarrow>
   (\<And>start r. current_cycle_start_time s = Some start \<Longrightarrow> r \<in> set rows \<Longrightarrow> start \<le> fst r)
   \<Longrightarrow> lo_inv s'"
proof (induction s rows arbitrary: s' rule: cycle_loop.induct)
  case (1 s)
  then show ?case by simp
next
  case (2 s ts sid ax ay az rows)
  from "2.prems"(1) obtain angle where
    l: "cycle_loop (cycle_step s ts sid angle) rows = Inr s'"
    by (auto simp: ebind_eq_Inr)
  have srt: "sorted (map fst rows)" and le: "\<And>r. r \<in> set rows \<Longrightarrow> ts \<le> fst r"
    using "2.prems"(2) by auto
  have cur: "start \<le> ts" if "current_cycle_start_time s = Some start" for start
    using "2.prems"(4) [OF that, of "(ts, sid, ax, ay, az)"] by simp
  have inv: "lo_inv (cycle_step s ts sid angle)"
    using "2.prems"(3) cur by (rule lo_inv_step)
  show ?case
  proof (rule "2.IH" [OF l srt inv])
    fix start r
    assume st: "current_cycle_start_time (cycle_step s ts sid angle) = Some start"
      and r: "r \<in> set rows"
    from start_time_step [OF st] show "start \<le> fst r"
    proof
      assume "start = ts"
      then show ?thesis using le [OF r] by simp
    next
      assume "current_cycle_start_time s = Some start"
      then show ?thesis using "2.prems"(4) [of start r] r by simp
    qed
  qed
qed

lemma lo_inv_flush: "lo_inv s \<Longrightarrow> list_all (\<lambda>(start, c). lo_ok start c) (flush s)"
  by (auto simp: lo_inv_def flush_def split: option.splits)

lemma group_cycles_lo:
  assumes "group_reading_cycles rows = Inr cycles" and "sorted (map fst rows)"
  shows "list_all (\<lambda>(start, c). lo_ok start c) cycles"
proof -
  from assms(1) obtain s where l: "cycle_loop initial_state rows = Inr s" and c: "cycles = flush s"
    by (auto simp: group_reading_cycles_def ebind_eq_Inr)
  have "lo_inv s"
    by (rule cycle_loop_lo [OF l assms(2)]) (simp_all add: lo_inv_def initial_state_def)
  then show ?thesis
    unfolding c by (rule lo_inv_flush)
qed

text \<open>
  Claim C2. One iteration of the grouping loop starts a new cycle exactly when no
  cycle is open, or the sensor is already in the current cycle, or the timestamp is more
  than 100 ms after the start of the current cycle: then the current cycle is flushed
  and the new one holds the sample alone, keyed at its timestamp. Otherwise the sample
  is added at the end of the current cycle and nothing else changes. On the five samples
  \<open>(505,0), (509,2), (513,5), (529,7), (1105,0)\<close>, with any acceleration values for
  which the angles are computed, the reconstructor emits exactly two cycles, keyed 505
  with sensors 0, 2, 5, 7 and keyed 1105 with sensor 0.
\<close>

theorem new_cycle_rule:
  "cycle_step s ts sid angle =
     (if current_cycle_start_time s = None \<or> sid \<in> fst ` set (current_cycle s)
         \<or> (\<exists>start. current_cycle_start_time s = Some start \<and> ts - start > 100)
      then \<lparr>reading_cycles = flush s, current_cycle = [(sid, (ts, angle))],
            current_cycle_start_time = Some ts\<rparr>
      else s\<lparr>current_cycle := current_cycle s @ [(sid, (ts, angle))]\<rparr>)
   \<and> (group_reading_cycles
         [(505, 0, x1, y1, z1), (509, 2, x2, y2, z2), (513, 5, x3, y3, z3),
          (529, 7, x4, y4, z4), (1105, 0, x5, y5, z5)] = Inr cycles
       \<longrightarrow> map (\<lambda>(start, c). (start, map fst c)) cycles = [(505, [0, 2, 5, 7]), (1105, [0])])"
proof
  show "cycle_step s ts sid angle =
     (if current_cycle_start_time s = None \<or> sid \<in> fst ` set (current_cycle s)
         \<or> (\<exists>start. current_cycle_start_time s = Some start \<and> ts - start > 100)
      then \<lparr>reading_cycles = flush s, current_cycle = [(sid, (ts, angle))],
            current_cycle_start_time = Some ts\<rparr>
      else s\<lparr>current_cycle := current_cycle s @ [(sid, (ts, angle))]\<rparr>)"
    by (auto simp: cycle_step_def starts_new_cycle_def dict_set_new CYCLE_WINDOW_MS_def
        split: option.splits)
  show "group_reading_cycles
         [(505, 0, x1, y1, z1), (509, 2, x2, y2, z2), (513, 5, x3, y3, z3),
          (529, 7, x4, y4, z4), (1105, 0, x5, y5, z5)] = Inr cycles
       \<longrightarrow> map (\<lambda>(start, c). (start, map fst c)) cycles = [(505, [0, 2, 5, 7]), (1105, [0])]"
    by (auto simp: group_reading_cycles_def initial_state_def ebind_eq_Inr cycle_step_def
        starts_new_cycle_def flush_def CYCLE_WINDOW_MS_def)
qed

theorem new_cycle_rule_witness:
  "group_reading_cycles
     [(505, 0, 8192, 0, 0), (509, 2, 8192, 0, 0), (513, 5, 8192, 0, 0),
      (529, 7, 8192, 0, 0), (1105, 0, 8192, 0, 0)]
     = Inr [(505, [(0, (505, 0)), (2, (509, 0)), (5, (513, 0)), (7, (529, 0))]),
            (1105, [(0, (1105, 0))])]
   \<and> map (\<lambda>(start, c). (start, map fst c))
       [(505, [(0, (505, 0 :: real)), (2, (509, 0)), (5, (513, 0)), (7, (529, 0))]),
        (1105 :: int, [(0 :: int, (1105 :: int, 0))])]
     = [(505, [0, 2, 5, 7]), (1105, [0])]"
proof -
  have g: "group_reading_cycles
     [(505, 0, 8192, 0, 0), (509, 2, 8192, 0, 0), (513, 5, 8192, 0, 0),
      (529, 7, 8192, 0, 0), (1105, 0, 8192, 0, 0)]
     = Inr [(505, [(0, (505, 0)), (2, (509, 0)), (5, (513, 0)), (7, (529, 0))]),
            (1105, [(0, (1105, 0))])]"
    by (simp add: group_reading_cycles_def initial_state_def angle_at_rest cycle_step_def
        starts_new_cycle_def flush_def CYCLE_WINDOW_MS_def)
  from new_cycle_rule [THEN conjunct2, rule_format, OF g] g show ?thesis
    by simp
qed

text \<open>
  Claim C7, as amended. For every row sequence on which the grouping returns, every
  emitted cycle holds at most one reading per sensor and every member timestamp is at
  most 100 ms after the cycle's start time. The check of the loop is one-sided
  (\<^verbatim>\<open>ts - current_cycle_start_time > CYCLE_WINDOW_MS\<close>): a member may be arbitrarily
  earlier than the start. When the timestamps of the rows are in non-decreasing order,
  every member lies within \<open>[start, start + 100]\<close>.
\<close>

theorem cycle_window_one_sided:
  assumes "group_reading_cycles rows = Inr cycles"
  shows "list_all (\<lambda>(start, c). distinct (map fst c)
            \<and> list_all (\<lambda>(sid, (ts, angle)). ts - start \<le> 100) c) cycles
     \<and> (sorted (map fst rows) \<longrightarrow>
          list_all (\<lambda>(start, c).
            list_all (\<lambda>(sid, (ts, angle)). 0 \<le> ts - start \<and> ts - start \<le> 100) c) cycles)"
proof -
  have ok: "list_all (\<lambda>(start, c). cycle_ok start c) cycles"
    by (rule group_cycles_ok [OF assms])
  have 1: "list_all (\<lambda>(start, c). distinct (map fst c)
            \<and> list_all (\<lambda>(sid, (ts, angle)). ts - start \<le> 100) c) cycles"
    using ok by (auto simp: list_all_iff cycle_ok_def CYCLE_WINDOW_MS_def)
  have 2: "list_all (\<lambda>(start, c).
            list_all (\<lambda>(sid, (ts, angle)). 0 \<le> ts - start \<and> ts - start \<le> 100) c) cycles"
    if "sorted (map fst rows)"
    using ok group_cycles_lo [OF assms that]
    by (fastforce simp: list_all_iff cycle_ok_def lo_ok_def CYCLE_WINDOW_MS_def)
  show ?thesis using 1 2 by blast
qed

theorem cycle_window_one_sided_witness:
  "group_reading_cycles [(505, 0, 8192, 0, 0), (509, 2, 8192, 0, 0), (1105, 0, 8192, 0, 0)]
     = Inr [(505, [(0, (505, 0)), (2, (509, 0))]), (1105, [(0, (1105, 0))])]
   \<and> sorted (map fst [(505 :: int, 0 :: int, 8192 :: int, 0 :: int, 0 :: int),
                        (509, 2, 8192, 0, 0), (1105, 0, 8192, 0, 0)])
   \<and> list_all (\<lambda>(start, c). distinct (map fst c)
        \<and> list_all (\<lambda>(sid, (ts, angle)). 0 \<le> ts - start \<and> ts - start \<le> 100) c)
       [(505 :: int, [(0 :: int, (505 :: int, 0 :: real)), (2, (509, 0))]),
        (1105, [(0, (1105, 0))])]"
proof -
  have g: "group_reading_cycles
       [(505, 0, 8192, 0, 0), (509, 2, 8192, 0, 0), (1105, 0, 8192, 0, 0)]
     = Inr [(505, [(0, (505, 0)), (2, (509, 0))]), (1105, [(0, (1105, 0))])]"
    by (simp add: group_reading_cycles_def initial_state_def angle_at_rest cycle_step_def
        starts_new_cycle_def flush_def CYCLE_WINDOW_MS_def)
  from cycle_window_one_sided [OF g] g show ?thesis
    by simp
qed

text \<open>
  The window of the claim is two-sided, for timestamps in any order. On the rows
  \<open>(1000, sensor 0), (0, sensor 1)\<close> the second sample joins the cycle that starts at
  1000, since \<open>0 - 1000\<close> does not exceed 100, and lies 1000 ms before the start.
\<close>

theorem cycle_window_two_sided_counterexample:
  "group_reading_cycles [(1000, 0, 8192, 0, 0), (0, 1, 8192, 0, 0)]
     = Inr [(1000, [(0, (1000, 0)), (1, (0, 0))])]
   \<and> \<not> two_sided_window 1000 [(0, (1000, 0)), (1, (0, 0))]"
  by (simp add: group_reading_cycles_def initial_state_def angle_at_rest cycle_step_def
      starts_new_cycle_def flush_def CYCLE_WINDOW_MS_def two_sided_window_def)

text \<open>Every row becomes exactly one reading, in the order of the rows.\<close>

lemma emitted_simp [simp]: "emitted (sid, (ts, angle)) = (sid, ts, Inr angle)"
  by (simp add: emitted_def)

lemma row_reading_simp [simp]:
  "row_reading (ts, sid, ax, ay, az) = (sid, ts, compute_angle_from_accel ax ay az)"
  by (simp add: row_reading_def)

lemma flush_step:
  "state_inv s \<Longrightarrow> all_readings (flush (cycle_step s ts sid angle)) = all_readings (flush s) @ [(sid, (ts, angle))]"
  by (auto simp: state_inv_def cycle_step_def starts_new_cycle_def flush_def cycle_ok_def
      all_readings_def dict_set_new split: option.splits)

lemma cycle_loop_readings:
  "cycle_loop s rows = Inr s' \<Longrightarrow> state_inv s \<Longrightarrow>
   map emitted (all_readings (flush s')) = map emitted (all_readings (flush s)) @ map row_reading rows"
proof (induction s rows arbitrary: s' rule: cycle_loop.induct)
  case (1 s)
  then show ?case by simp
next
  case (2 s ts sid ax ay az rows)
  from "2.prems"(1) obtain angle where a: "compute_angle_from_accel ax ay az = Inr angle"
    and l: "cycle_loop (cycle_step s ts sid angle) rows = Inr s'"
    by (auto simp: ebind_eq_Inr)
  have "map emitted (all_readings (flush s')) =
        map emitted (all_readings (flush (cycle_step s ts sid angle))) @ map row_reading rows"
    using "2.IH" [OF l] state_inv_step [OF "2.prems"(2)] by blast
  then show ?case
    using a by (simp add: flush_step [OF "2.prems"(2)])
qed

lemma group_cycles_readings:
  "group_reading_cycles rows = Inr cycles \<Longrightarrow> map emitted (all_readings cycles) = map row_reading rows"
  using cycle_loop_readings [OF _ state_inv_initial]
  by (auto simp: group_reading_cycles_def ebind_eq_Inr flush_def initial_state_def all_readings_def)

lemma all_readings_nonempty:
  "list_all (\<lambda>(start, c). cycle_ok start c) cycles \<Longrightarrow> cycles \<noteq> [] \<Longrightarrow> all_readings cycles \<noteq> []"
  by (cases cycles) (auto simp: all_readings_def cycle_ok_def)

lemma group_cycles_nonempty:
  assumes "group_reading_cycles rows = Inr cycles" "rows \<noteq> []"
  shows "cycles \<noteq> []"
proof
  assume "cycles = []"
  with group_cycles_readings [OF assms(1)] assms(2) show False
    by (simp add: all_readings_def)
qed

lemma readings_of_rows:
  assumes "group_reading_cycles rows = Inr cycles"
  shows "map (\<lambda>r. fst (snd r)) (all_readings cycles) = map fst rows"
    and "map fst (all_readings cycles) = map (\<lambda>r. fst (snd r)) rows"
    and "map Inr (cycle_angles cycles) = map row_angle rows"
    and "length (all_readings cycles) = length rows"
proof -
  note e = group_cycles_readings [OF assms]
  have "map (\<lambda>r. fst (snd r)) (map emitted (all_readings cycles))
      = map (\<lambda>r. fst (snd r)) (map row_reading rows)"
    by (simp only: e)
  then show "map (\<lambda>r. fst (snd r)) (all_readings cycles) = map fst rows"
    by (simp add: o_def emitted_def row_reading_def case_prod_unfold)
  have "map fst (map emitted (all_readings cycles)) = map fst (map row_reading rows)"
    by (simp only: e)
  then show "map fst (all_readings cycles) = map (\<lambda>r. fst (snd r)) rows"
    by (simp add: o_def emitted_def row_reading_def case_prod_unfold)
  have "map (\<lambda>r. snd (snd r)) (map emitted (all_readings cycles))
      = map (\<lambda>r. snd (snd r)) (map row_reading rows)"
    by (simp only: e)
  then show "map Inr (cycle_angles cycles) = map row_angle rows"
    by (simp add: o_def emitted_def row_reading_def row_angle_def cycle_angles_def case_prod_unfold)
  from e have "length (map emitted (all_readings cycles)) = length (map row_reading rows)"
    by (simp only:)
  then show "length (all_readings cycles) = length rows" by simp
qed

lemma cycle_starts_in_rows:
  assumes "group_reading_cycles rows = Inr cycles"
  shows "fst ` set cycles \<subseteq> set (map fst rows)"
proof
  fix t assume "t \<in> fst ` set cycles"
  then obtain c where tc: "(t, c) \<in> set cycles" by auto
  with group_cycles_ok [OF assms] have ok: "cycle_ok t c"
    by (auto simp: list_all_iff)
  then have "hd c \<in> set c" "fst (snd (hd c)) = t" by (auto simp: cycle_ok_def)
  with tc have "t \<in> set (map (\<lambda>r. fst (snd r)) (all_readings cycles))"
    by (force simp: all_readings_def)
  then show "t \<in> set (map fst rows)"
    by (simp only: readings_of_rows(1) [OF assms])
qed

subsection \<open>Which exceptions can be raised, and when none is\<close>

lemma field_bound_facts:
  "10 \<le> field_bound" "2 * field_bound < float_limit"
  "2 * (field_bound * field_bound) < float_limit"
  by (simp_all add: field_bound_def float_limit_def)

lemma float_of_int_Inr: "float_of_int n = Inr x \<longleftrightarrow> \<bar>n\<bar> < float_limit \<and> x = real_of_int n"
  by (auto simp: float_of_int_def)

lemma float_of_int_Inl: "float_of_int n = Inl e \<longleftrightarrow> float_limit \<le> \<bar>n\<bar> \<and> e = OverflowError"
  by (auto simp: float_of_int_def)

lemma sq_bound:
  assumes "\<bar>y\<bar> \<le> (b::int)"
  shows "y * y \<le> b * b"
proof -
  have "y * y = \<bar>y\<bar> * \<bar>y\<bar>" by (simp add: abs_mult_self_eq)
  also have "\<dots> \<le> b * b"
    using assms by (intro mult_mono) auto
  finally show ?thesis .
qed

lemma compute_angle_error:
  "compute_angle_from_accel ax ay az = Inl e \<Longrightarrow> e = OverflowError"
  by (auto simp: compute_angle_from_accel_def Let_def float_of_int_def split: sum.splits if_splits)

lemma compute_angle_bounded:
  assumes "\<bar>ax\<bar> \<le> field_bound" "\<bar>ay\<bar> \<le> field_bound" "\<bar>az\<bar> \<le> field_bound"
  shows "\<exists>a. compute_angle_from_accel ax ay az = Inr a"
proof -
  define xRaw where "xRaw = (if ax \<noteq> 0 then ax else 10)"
  define yUsed where "yUsed = (if \<bar>ay\<bar> < deadzoneRaw then 0 else ay)"
  define zUsed where "zUsed = (if \<bar>az\<bar> < deadzoneRaw then 0 else az)"
  have "\<bar>yUsed\<bar> \<le> field_bound" "\<bar>zUsed\<bar> \<le> field_bound"
    using assms field_bound_facts(1) by (auto simp: yUsed_def zUsed_def)
  then have "yUsed * yUsed \<le> field_bound * field_bound"
    "zUsed * zUsed \<le> field_bound * field_bound"
    by (auto intro: sq_bound)
  moreover have "0 \<le> yUsed * yUsed" "0 \<le> zUsed * zUsed" by simp_all
  ultimately have 1: "\<bar>yUsed * yUsed + zUsed * zUsed\<bar> < float_limit"
    using field_bound_facts(3) by linarith
  have "\<bar>xRaw\<bar> \<le> field_bound" using assms field_bound_facts(1) by (auto simp: xRaw_def)
  then have 2: "\<bar>\<bar>xRaw\<bar>\<bar> < float_limit"
    using field_bound_facts(1,2) by linarith
  show ?thesis
    using 1 2
    unfolding compute_angle_from_accel_def Let_def xRaw_def [symmetric] yUsed_def [symmetric]
      zUsed_def [symmetric]
    by (simp add: float_of_int_def)
qed

lemma cycle_loop_error: "cycle_loop s rows = Inl e \<Longrightarrow> e = OverflowError"
  by (induction s rows rule: cycle_loop.induct)
     (auto simp: ebind_eq_Inl dest: compute_angle_error)

lemma cycle_loop_total:
  "list_all bounded_row rows \<Longrightarrow> \<exists>s'. cycle_loop s rows = Inr s'"
proof (induction s rows rule: cycle_loop.induct)
  case (1 s)
  then show ?case by simp
next
  case (2 s ts sid ax ay az rows)
  from "2.prems" obtain a where "compute_angle_from_accel ax ay az = Inr a"
    using compute_angle_bounded [of ax ay az] by (auto simp: bounded_row_def)
  with 2 show ?case by auto
qed

lemma group_cycles_error: "group_reading_cycles rows = Inl e \<Longrightarrow> e = OverflowError"
  by (auto simp: group_reading_cycles_def ebind_eq_Inl dest: cycle_loop_error)

lemma group_cycles_total:
  "list_all bounded_row rows \<Longrightarrow> \<exists>cycles. group_reading_cycles rows = Inr cycles"
  using cycle_loop_total [of rows initial_state]
  by (auto simp: group_reading_cycles_def)

subsection \<open>Sensor series and time frames\<close>

lemma dict_set_keys:
  "map fst (dict_set d k v) = (if k \<in> set (map fst d) then map fst d else map fst d @ [k])"
  by (induction d) (force+)

lemma dict_set_distinct: "distinct (map fst d) \<Longrightarrow> distinct (map fst (dict_set d k v))"
  by (simp add: dict_set_keys)

lemma dict_set_key_set: "set (map fst (dict_set d k v)) = insert k (set (map fst d))"
  by (auto simp: dict_set_keys)

lemma sd_angles_append:
  "mset (sd_angles (dict_set sd sid (dict_get_list sd sid @ [x]))) = mset (sd_angles sd) + {#d_angle x#}"
  by (induction sd) (auto simp: sd_angles_def dict_get_list_def)

lemma sensor_data_cycle_props:
  "sensor_data_cycle sd c = Inr sd' \<Longrightarrow>
   (distinct (map fst sd) \<longrightarrow> distinct (map fst sd'))
   \<and> set (map fst sd') = set (map fst sd) \<union> set (map fst c)
   \<and> mset (sd_angles sd') = mset (sd_angles sd) + mset (map (\<lambda>r. snd (snd r)) c)"
proof (induction sd c arbitrary: sd' rule: sensor_data_cycle.induct)
  case (1 sensor_data)
  then show ?case by simp
next
  case (2 sensor_data sid ts angle cycle_data)
  from "2.prems" obtain t where
    r: "sensor_data_cycle (dict_set sensor_data sid
          (dict_get_list sensor_data sid @ [\<lparr>d_time = t / 1000, d_angle = angle, d_ts_ms = ts\<rparr>]))
          cycle_data = Inr sd'"
    by (auto simp: ebind_eq_Inr)
  from "2.IH" [OF r] show ?case
    by (auto simp: dict_set_distinct dict_set_key_set sd_angles_append simp del: set_map)
qed

lemma build_sensor_data_props:
  "build_sensor_data sd cycles = Inr sd' \<Longrightarrow>
   (distinct (map fst sd) \<longrightarrow> distinct (map fst sd'))
   \<and> set (map fst sd') = set (map fst sd) \<union> set (map fst (all_readings cycles))
   \<and> mset (sd_angles sd') = mset (sd_angles sd) + mset (map (\<lambda>r. snd (snd r)) (all_readings cycles))"
proof (induction sd cycles arbitrary: sd' rule: build_sensor_data.induct)
  case (1 sensor_data)
  then show ?case by (simp add: all_readings_def)
next
  case (2 sensor_data cycle_time cycle_data cycles)
  from "2.prems" obtain sd1 where
    a: "sensor_data_cycle sensor_data cycle_data = Inr sd1"
    and b: "build_sensor_data sd1 cycles = Inr sd'"
    by (auto simp: ebind_eq_Inr)
  from sensor_data_cycle_props [OF a] "2.IH" [OF b] show ?case
    by (auto simp: all_readings_def simp del: set_map)
qed

lemma sensor_data_cycle_error: "sensor_data_cycle sd c = Inl e \<Longrightarrow> e = OverflowError"
  by (induction sd c rule: sensor_data_cycle.induct)
     (auto simp: ebind_eq_Inl float_of_int_Inl)

lemma build_sensor_data_error: "build_sensor_data sd cycles = Inl e \<Longrightarrow> e = OverflowError"
  by (induction sd cycles rule: build_sensor_data.induct)
     (auto simp: ebind_eq_Inl dest: sensor_data_cycle_error)

lemma sensor_data_cycle_Inr:
  "(\<exists>sd'. sensor_data_cycle sd c = Inr sd') \<longleftrightarrow> list_all (\<lambda>r. \<bar>fst (snd r)\<bar> < float_limit) c"
  by (induction sd c rule: sensor_data_cycle.induct)
     (auto simp: ebind_eq_Inr float_of_int_Inr)

lemma build_sensor_data_Inr:
  "(\<exists>sd'. build_sensor_data sd cycles = Inr sd')
   \<longleftrightarrow> list_all (\<lambda>r. \<bar>fst (snd r)\<bar> < float_limit) (all_readings cycles)"
proof (induction sd cycles rule: build_sensor_data.induct)
  case (1 sensor_data)
  then show ?case by (simp add: all_readings_def)
next
  case (2 sensor_data cycle_time cycle_data cycles)
  show ?case
  proof (cases "sensor_data_cycle sensor_data cycle_data")
    case (Inl e)
    then have "\<not> list_all (\<lambda>r. \<bar>fst (snd r)\<bar> < float_limit) cycle_data"
      using sensor_data_cycle_Inr [of sensor_data cycle_data] by auto
    with Inl show ?thesis by (simp add: all_readings_def)
  next
    case (Inr sd1)
    then have "list_all (\<lambda>r. \<bar>fst (snd r)\<bar> < float_limit) cycle_data"
      using sensor_data_cycle_Inr [of sensor_data cycle_data] by auto
    with Inr "2.IH" [of sd1] show ?thesis by (simp add: all_readings_def)
  qed
qed

lemma fold_time_frames_keys:
  "set (map fst (fold (\<lambda>(cycle_time, cycle_data) time_frames.
             dict_set time_frames cycle_time (f cycle_data)) cycles acc))
   = set (map fst acc) \<union> fst ` set cycles"
  by (induction cycles arbitrary: acc) (auto simp: dict_set_key_set simp del: set_map)

lemma time_frames_keys: "set (map fst (build_time_frames cycles)) = fst ` set cycles"
  using fold_time_frames_keys [of _ cycles "[]"] by (simp add: build_time_frames_def)

lemma fold_time_frames_distinct:
  "distinct (map fst acc) \<Longrightarrow>
   distinct (map fst (fold (\<lambda>(cycle_time, cycle_data) time_frames.
             dict_set time_frames cycle_time (f cycle_data)) cycles acc))"
  by (induction cycles arbitrary: acc) (auto simp: dict_set_distinct)

lemma time_frames_distinct: "distinct (map fst (build_time_frames cycles))"
  using fold_time_frames_distinct [of "[]" _ cycles] by (simp add: build_time_frames_def)

lemma fold_time_frames_fresh:
  "distinct (map fst cycles) \<Longrightarrow> set (map fst acc) \<inter> fst ` set cycles = {} \<Longrightarrow>
   fold (\<lambda>(cycle_time, cycle_data) time_frames.
             dict_set time_frames cycle_time (f cycle_data)) cycles acc
   = acc @ map (\<lambda>(cycle_time, cycle_data). (cycle_time, f cycle_data)) cycles"
proof (induction cycles arbitrary: acc)
  case Nil
  then show ?case by simp
next
  case (Cons c cycles)
  obtain t d where c: "c = (t, d)" by (cases c)
  have fresh: "t \<notin> fst ` set acc" using Cons.prems(2) c by auto
  have "set (map fst (acc @ [(t, f d)])) \<inter> fst ` set cycles = {}"
    using Cons.prems c by auto
  with Cons.IH [of "acc @ [(t, f d)]"] Cons.prems(1) c fresh show ?case
    by (simp add: dict_set_new)
qed

lemma time_frames_fresh:
  "distinct (map fst cycles) \<Longrightarrow>
   build_time_frames cycles
   = map (\<lambda>(cycle_time, cycle_data). (cycle_time, map (\<lambda>(sid, (ts, angle)). (sid, angle)) cycle_data)) cycles"
  using fold_time_frames_fresh [of cycles "[]"] by (simp add: build_time_frames_def)

lemma timestamps_nonempty:
  assumes "cycles \<noteq> []"
  shows "sort (map fst (build_time_frames cycles)) \<noteq> []"
proof
  assume "sort (map fst (build_time_frames cycles)) = []"
  then have "set (sort (map fst (build_time_frames cycles))) = {}"
    by simp
  then have "set (map fst (build_time_frames cycles)) = {}"
    by simp
  then have "fst ` set cycles = {}"
    by (simp only: time_frames_keys)
  with assms show False by simp
qed

subsection \<open>Frame sampler, spine curves and curvature\<close>

lemma slice_step_subset: "set (slice_step k skip xs) \<subseteq> set xs"
  by (induction k skip xs rule: slice_step.induct) auto

lemma slice_step_one: "slice_step 1 0 xs = xs"
  by (induction xs) auto

lemma slice_step_two_snoc:
  "(skip = 0 \<and> odd (length xs)) \<or> (skip = 1 \<and> even (length xs)) \<Longrightarrow>
   slice_step 2 skip (xs @ [y]) = slice_step 2 skip xs"
  by (induction xs arbitrary: skip) auto

lemma build_spine_curves_error:
  "build_spine_curves tf so acc S = Inl e \<Longrightarrow> e = OverflowError"
  by (induction tf so acc S rule: build_spine_curves.induct)
     (auto simp: ebind_eq_Inl float_of_int_Inl Let_def split: option.splits if_splits)

lemma build_spine_curves_total:
  "(\<And>ts. ts \<in> set S \<Longrightarrow> ts \<in> fst ` set tf \<Longrightarrow> \<bar>ts\<bar> < float_limit) \<Longrightarrow>
   \<exists>sc. build_spine_curves tf so acc S = Inr sc"
proof (induction tf so acc S rule: build_spine_curves.induct)
  case (1 time_frames sensor_order spine_curves)
  then show ?case by simp
next
  case (2 time_frames sensor_order spine_curves ts sampled_timestamps)
  show ?case
  proof (cases "map_of time_frames ts")
    case None
    with 2 show ?thesis by simp
  next
    case (Some fr)
    then have "ts \<in> fst ` set time_frames"
      by (auto dest!: map_of_SomeD intro: rev_image_eqI)
    then have "\<bar>ts\<bar> < float_limit" using "2.prems" by simp
    then have f: "float_of_int ts = Inr (real_of_int ts)" by (simp add: float_of_int_def)
    show ?thesis
      using Some f "2.IH"(2,3) [OF Some refl] "2.prems"
      by (simp add: Let_def)
  qed
qed

lemma chord_length_zero:
  "sqrt ((snd l - snd f)\<^sup>2 + (fst l - fst f)\<^sup>2) = 0 \<longleftrightarrow> f = l"
  for f l :: "real \<times> real"
  by (auto simp: prod_eq_iff)

lemma curvature_points_total: "\<exists>r. curvature_points f l mc pts = Inr r"
  by (induction f l mc pts rule: curvature_points.induct)
     (auto simp: py_div_def chord_length_zero simp del: real_sqrt_eq_zero_cancel_iff)

lemma curvature_loop_total: "\<exists>r. curvature_loop mc fs = Inr r"
proof (induction mc fs rule: curvature_loop.induct)
  case (1 max_curvature)
  then show ?case by simp
next
  case (2 max_curvature curve spine_curves)
  obtain r where "curvature_points (hd (f_points curve)) (last (f_points curve)) max_curvature
                 (butlast (tl (f_points curve))) = Inr r"
    using curvature_points_total by blast
  with 2 show ?case by auto
qed

subsection \<open>The analysis as a whole\<close>

lemma metrics_loop_angles:
  "fst (metrics_loop (all_angles, sensor_roms) sd) = all_angles @ sd_angles sd"
  by (induction "(all_angles, sensor_roms)" sd arbitrary: all_angles sensor_roms rule: metrics_loop.induct)
     (auto simp: sd_angles_def Let_def)

lemma rom_eq: "rom xs = (if xs = [] then 0 else Max (set xs) - Min (set xs))"
  by (simp add: rom_def py_min_eq py_max_eq)

lemma summary_fields:
  "r_spine_curves (summary f n sd so sc d mc) = sc"
  "r_max_curvature (summary f n sd so sc d mc) = mc"
  "r_total_rom (summary f n sd so sc d mc) = rom (sd_angles sd)"
  "r_sensors (summary f n sd so sc d mc) = length sd"
  "r_samples (summary f n sd so sc d mc) = n"
  "r_duration (summary f n sd so sc d mc) = d"
  by (simp_all add: summary_def Let_def split: prod.splits)
     (use metrics_loop_angles [of "[]" "[]" sd] in auto)

lemma summary_stride:
  "summary f n sd so sc' d mc' = (summary f n sd so sc d mc)\<lparr>r_max_curvature := mc', r_spine_curves := sc'\<rparr>"
  by (simp add: summary_def Let_def split: prod.splits)

lemma analyze_cycles_Inr:
  assumes "analyze_cycles stride f n cycles = Inr res"
  shows "\<exists>sd sc mc d. build_sensor_data [] cycles = Inr sd
     \<and> build_spine_curves (build_time_frames cycles) (sort (map fst sd)) []
          (slice_step (stride (length (build_time_frames cycles))) 0
             (sort (map fst (build_time_frames cycles)))) = Inr sc
     \<and> session_duration (sort (map fst (build_time_frames cycles))) = Inr d
     \<and> curvature_loop 0 sc = Inr mc
     \<and> res = summary f n sd (sort (map fst sd)) sc d mc"
  using assms
  unfolding analyze_cycles_def
  by (simp add: Let_def ebind_eq_Inr) blast

lemma session_duration_error:
  "ts \<noteq> [] \<Longrightarrow> session_duration ts = Inl e \<Longrightarrow> e = OverflowError"
  by (auto simp: session_duration_def ebind_eq_Inl float_of_int_Inl)

lemma session_duration_bounded:
  assumes "ts \<noteq> []" and "\<And>t. t \<in> set ts \<Longrightarrow> \<bar>t\<bar> \<le> field_bound"
  shows "\<exists>d. session_duration ts = Inr d"
proof -
  have "\<bar>last ts\<bar> \<le> field_bound" "\<bar>hd ts\<bar> \<le> field_bound"
    using assms by auto
  then have "\<bar>last ts - hd ts\<bar> < float_limit"
    using field_bound_facts(2) by linarith
  then have "float_of_int (last ts - hd ts) = Inr (real_of_int (last ts - hd ts))"
    by (simp add: float_of_int_def)
  with assms(1) show ?thesis
    by (simp only: session_duration_def if_False ebind_Inr) blast
qed

lemma analyze_cycles_error:
  assumes "analyze_cycles stride f n cycles = Inl e" and "cycles \<noteq> []"
  shows "e = OverflowError"
  using assms(1) timestamps_nonempty [OF assms(2)] curvature_loop_total
  unfolding analyze_cycles_def Let_def
  by (auto simp: ebind_eq_Inl dest: build_sensor_data_error build_spine_curves_error
      session_duration_error)
     (metis Inl_Inr_False)

lemma analyze_cycles_total:
  assumes g: "group_reading_cycles rows = Inr cycles" and ne: "rows \<noteq> []"
    and sd: "build_sensor_data [] cycles = Inr sd"
    and dur: "session_duration (sort (map fst (build_time_frames cycles))) = Inr d"
  shows "\<exists>res. analyze_cycles stride f n cycles = Inr res"
proof -
  have lim: "list_all (\<lambda>r. \<bar>fst (snd r)\<bar> < float_limit) (all_readings cycles)"
    using build_sensor_data_Inr [of "[]" cycles] sd by blast
  have ts: "\<bar>t\<bar> < float_limit" if "t \<in> fst ` set cycles" for t
  proof -
    from that cycle_starts_in_rows [OF g] have "t \<in> set (map fst rows)" by blast
    then have "t \<in> set (map (\<lambda>r. fst (snd r)) (all_readings cycles))"
      by (simp only: readings_of_rows(1) [OF g])
    with lim show ?thesis by (auto simp: list_all_iff)
  qed
  let ?tf = "build_time_frames cycles"
  let ?S = "slice_step (stride (length (sort (map fst ?tf)))) 0 (sort (map fst ?tf))"
  have "\<exists>sc. build_spine_curves ?tf (sort (map fst sd)) [] ?S = Inr sc"
  proof (rule build_spine_curves_total)
    fix t assume "t \<in> set ?S" and "t \<in> fst ` set ?tf"
    then have "t \<in> set (map fst ?tf)" by simp
    then have "t \<in> fst ` set cycles" by (simp only: time_frames_keys)
    then show "\<bar>t\<bar> < float_limit" by (rule ts)
  qed
  then obtain sc where sc: "build_spine_curves ?tf (sort (map fst sd)) [] ?S = Inr sc" ..
  obtain mc where mc: "curvature_loop 0 sc = Inr mc"
    using curvature_loop_total by blast
  show ?thesis
    unfolding analyze_cycles_def Let_def
    using sd sc dur mc by simp
qed

lemma analyze_rows_with_Some:
  "analyze_rows_with stride f rows = Inr (Some res) \<longleftrightarrow>
     rows \<noteq> [] \<and> fst (trim_rows rows) \<noteq> []
     \<and> (\<exists>cycles. group_reading_cycles (fst (trim_rows rows)) = Inr cycles
          \<and> analyze_cycles stride f (length (fst (trim_rows rows))) cycles = Inr res)"
  by (auto simp: analyze_rows_with_def Let_def ebind_eq_Inr)


lemma analyze_rows_with_total:
  assumes ne: "rows \<noteq> []" and tne: "fst (trim_rows rows) \<noteq> []"
    and b: "list_all bounded_row (fst (trim_rows rows))"
  shows "\<exists>res. analyze_rows_with stride f rows = Inr (Some res)"
proof -
  let ?rows = "fst (trim_rows rows)"
  from group_cycles_total [OF b] obtain cycles where g: "group_reading_cycles ?rows = Inr cycles" ..
  have rb: "\<bar>t\<bar> \<le> field_bound" if "t \<in> set (map fst ?rows)" for t
    using that b by (auto simp: list_all_iff bounded_row_def)
  have "list_all (\<lambda>r. \<bar>fst (snd r)\<bar> < float_limit) (all_readings cycles)"
  proof -
    have "\<bar>t\<bar> < float_limit" if "t \<in> set (map (\<lambda>r. fst (snd r)) (all_readings cycles))" for t
    proof -
      from that have "t \<in> set (map fst ?rows)" by (simp only: readings_of_rows(1) [OF g])
      from rb [OF this] show ?thesis using field_bound_facts(1,2) by linarith
    qed
    then show ?thesis by (auto simp: list_all_iff)
  qed
  then obtain sd where sd: "build_sensor_data [] cycles = Inr sd"
    using build_sensor_data_Inr [of "[]" cycles] by blast
  have cne: "cycles \<noteq> []" by (rule group_cycles_nonempty [OF g tne])
  have "\<exists>d. session_duration (sort (map fst (build_time_frames cycles))) = Inr d"
  proof (rule session_duration_bounded [OF timestamps_nonempty [OF cne]])
    fix t assume "t \<in> set (sort (map fst (build_time_frames cycles)))"
    then have "t \<in> set (map fst (build_time_frames cycles))" by simp
    then have "t \<in> fst ` set cycles" by (simp only: time_frames_keys)
    with cycle_starts_in_rows [OF g] have "t \<in> set (map fst ?rows)" by blast
    then show "\<bar>t\<bar> \<le> field_bound" by (rule rb)
  qed
  then obtain d where d: "session_duration (sort (map fst (build_time_frames cycles))) = Inr d" ..
  from analyze_cycles_total [OF g tne sd d] obtain res where
    "analyze_cycles stride f (length ?rows) cycles = Inr res" ..
  with g ne tne show ?thesis
    by (auto simp: analyze_rows_with_Some)
qed

text \<open>
  In the embedding, where the arithmetic on floats is exact, the only exception that the
  analysis of the rows can raise is the overflow of a conversion to float: the list of
  timestamps is not empty, and the chord of two different points has a length that is
  not zero.
\<close>

lemma analyze_rows_with_error:
  assumes "analyze_rows_with stride f rows = Inl e"
  shows "e = OverflowError"
proof -
  from assms have ne: "rows \<noteq> []" and tne: "fst (trim_rows rows) \<noteq> []"
    by (auto simp: analyze_rows_with_def Let_def split: if_splits)
  show ?thesis
  proof (cases "group_reading_cycles (fst (trim_rows rows))")
    case (Inl e')
    with assms ne tne have "e = e'" by (simp add: analyze_rows_with_def Let_def)
    with Inl show ?thesis by (auto dest: group_cycles_error)
  next
    case (Inr cycles)
    with assms ne tne have "analyze_cycles stride f (length (fst (trim_rows rows))) cycles = Inl e"
      by (auto simp: analyze_rows_with_def Let_def ebind_eq_Inl)
    then show ?thesis
      by (rule analyze_cycles_error) (rule group_cycles_nonempty [OF Inr tne])
  qed
qed

lemma analyze_rows_with_stride:
  assumes "analyze_rows_with stride f rows = Inr (Some r1)"
  shows "\<exists>r2. analyze_rows_with stride' f rows = Inr (Some r2)
    \<and> r2 = r1\<lparr>r_max_curvature := r_max_curvature r2, r_spine_curves := r_spine_curves r2\<rparr>"
proof -
  let ?rows = "fst (trim_rows rows)"
  from assms obtain cycles where ne: "rows \<noteq> []" and tne: "?rows \<noteq> []"
    and g: "group_reading_cycles ?rows = Inr cycles"
    and a: "analyze_cycles stride f (length ?rows) cycles = Inr r1"
    by (auto simp: analyze_rows_with_Some)
  from analyze_cycles_Inr [OF a] obtain sd sc mc d where
    sd: "build_sensor_data [] cycles = Inr sd"
    and d: "session_duration (sort (map fst (build_time_frames cycles))) = Inr d"
    and r1: "r1 = summary f (length ?rows) sd (sort (map fst sd)) sc d mc"
    by blast
  from analyze_cycles_total [OF g tne sd d] obtain r2 where
    a2: "analyze_cycles stride' f (length ?rows) cycles = Inr r2" ..
  from analyze_cycles_Inr [OF a2] sd d obtain sc' mc' where
    r2: "r2 = summary f (length ?rows) sd (sort (map fst sd)) sc' d mc'"
    by auto
  have "r2 = r1\<lparr>r_max_curvature := r_max_curvature r2, r_spine_curves := r_spine_curves r2\<rparr>"
    unfolding r1 r2 by (simp add: summary_fields summary_stride)
  with a2 g ne tne show ?thesis
    by (auto simp: analyze_rows_with_Some)
qed


text \<open>The concrete session: what the trimming keeps, its one cycle, and that the analysis
  returns a result on it.\<close>

lemma angle_45: "compute_angle_from_accel 1000 1000 0 = Inr 45"
proof -
  have "sqrt 1000000 = sqrt (1000\<^sup>2)" by simp
  also have "\<dots> = 1000" by (simp only: real_sqrt_abs abs_numeral)
  finally have s: "sqrt 1000000 = 1000" .
  show ?thesis
    by (simp add: compute_angle_from_accel_def float_of_int_def scale_def Let_def
        deadzoneRaw_eq float_limit_def atan2_def s arctan_one)
qed

lemma trim_rows0:
  "fst (trim_rows rows0) = [(300000, 0, 8192, 0, 0), (300010, 1, 1000, 1000, 0)]"
  by (simp add: rows0_def trim_rows_def Let_def py_min_def py_max_def FIVE_MINUTES_MS_def)

lemma cycles_rows0:
  "group_reading_cycles [(300000, 0, 8192, 0, 0), (300010, 1, 1000, 1000, 0)]
   = Inr [(300000, [(0, (300000, 0)), (1, (300010, 45))])]"
  by (simp add: group_reading_cycles_def initial_state_def angle_at_rest angle_45 cycle_step_def
      starts_new_cycle_def flush_def CYCLE_WINDOW_MS_def)

lemma analyze_rows0: "\<exists>res. analyze_rows f rows0 = Inr (Some res)"
  unfolding analyze_rows_def
  by (rule analyze_rows_with_total)
     (simp_all add: trim_rows0, simp_all add: rows0_def bounded_row_def field_bound_def)


subsection \<open>Long sessions\<close>

text \<open>The trimming of a session that lies between a first and a last row, and the
  grouping of the samples of one sensor: every sample is a cycle of its own.\<close>

lemma trim_sandwich:
  assumes mid: "\<And>r. r \<in> set mid \<Longrightarrow> fst a + 300000 \<le> fst r \<and> fst r + 300000 \<le> fst b"
    and ab: "fst a + 600000 \<le> fst b"
  shows "fst (trim_rows (a # mid @ [b])) = mid"
proof -
  let ?T = "set (map fst (a # mid @ [b]))"
  have mn: "Min ?T = fst a"
  proof (rule Min_eqI)
    show "finite ?T" by simp
    show "fst a \<in> ?T" by simp
    fix y assume "y \<in> ?T"
    then show "fst a \<le> y" using mid ab by fastforce
  qed
  have mx: "Max ?T = fst b"
  proof (rule Max_eqI)
    show "finite ?T" by simp
    show "fst b \<in> ?T" by simp
    fix y assume "y \<in> ?T"
    then show "y \<le> fst b" using mid ab by fastforce
  qed
  have ne: "a # mid @ [b] \<noteq> []" by simp
  have "fst (trim_rows (a # mid @ [b])) =
     filter (\<lambda>row. fst a + 300000 \<le> fst row \<and> fst row \<le> fst b - 300000) (a # mid @ [b])"
    unfolding trim_rows_filter [OF ne] mn mx ..
  also have "\<dots> = filter (\<lambda>row. fst a + 300000 \<le> fst row \<and> fst row \<le> fst b - 300000) mid"
    using ab by simp
  also have "\<dots> = mid"
    using mid by (fastforce simp: filter_id_conv)
  finally show ?thesis .
qed

lemma cycle_loop_append:
  "cycle_loop s (xs @ ys) = ebind (cycle_loop s xs) (\<lambda>s'. cycle_loop s' ys)"
proof (induction s xs rule: cycle_loop.induct)
  case (1 s)
  then show ?case by simp
next
  case (2 s ts sid ax ay az rows)
  show ?case
    by (cases "compute_angle_from_accel ax ay az") (simp_all add: 2)
qed

lemma cycle_loop_one_sensor:
  assumes a: "compute_angle_from_accel ax ay az = Inr angle"
    and ne: "ts \<noteq> []"
    and st: "current_cycle_start_time s = None \<or> sid \<in> fst ` set (current_cycle s)"
  shows "cycle_loop s (map (\<lambda>t. (t, sid, ax, ay, az)) ts)
    = Inr \<lparr>reading_cycles = flush s @ map (\<lambda>t. (t, [(sid, (t, angle))])) (butlast ts),
           current_cycle = [(sid, (last ts, angle))],
           current_cycle_start_time = Some (last ts)\<rparr>"
  using ne st
proof (induction ts arbitrary: s)
  case Nil
  then show ?case by simp
next
  case (Cons t ts)
  let ?s1 = "\<lparr>reading_cycles = flush s, current_cycle = [(sid, (t, angle))],
              current_cycle_start_time = Some t\<rparr>"
  have step: "cycle_step s t sid angle = ?s1"
    using Cons.prems(2) by (auto simp: cycle_step_def starts_new_cycle_def split: option.splits)
  show ?case
  proof (cases "ts = []")
    case True
    then show ?thesis by (simp add: a step)
  next
    case False
    have "cycle_loop ?s1 (map (\<lambda>t. (t, sid, ax, ay, az)) ts)
      = Inr \<lparr>reading_cycles = flush ?s1 @ map (\<lambda>t. (t, [(sid, (t, angle))])) (butlast ts),
           current_cycle = [(sid, (last ts, angle))],
           current_cycle_start_time = Some (last ts)\<rparr>"
      by (rule Cons.IH [OF False]) simp
    with False show ?thesis
      by (simp add: a step flush_def)
  qed
qed

lemma steady_rows_map:
  "steady_rows ax ay az n = map (\<lambda>t. (t, 0, ax, ay, az)) (steady_times n)"
  by (simp add: steady_rows_def steady_times_def)

lemma steady_times_sorted: "sorted (steady_times n)" "distinct (steady_times n)"
  by (auto simp: steady_times_def sorted_map distinct_map inj_on_def
      intro!: sorted_wrt_mono_rel [OF _ sorted_upt])

lemma steady_times_range:
  "t \<in> set (steady_times n) \<Longrightarrow> 300000 \<le> t \<and> t < 300000 + 200 * int n"
  by (auto simp: steady_times_def)

lemma steady_times_length: "length (steady_times n) = n"
  by (simp add: steady_times_def)

lemma steady_times_nonempty: "0 < n \<Longrightarrow> steady_times n \<noteq> []"
  using steady_times_length [of n] by auto

lemma group_steady:
  assumes "compute_angle_from_accel ax ay az = Inr angle"
  shows "group_reading_cycles (steady_rows ax ay az n)
     = Inr (map (\<lambda>t. (t, [(0, (t, angle))])) (steady_times n))"
proof (cases "steady_times n = []")
  case True
  then show ?thesis
    by (simp add: steady_rows_map group_reading_cycles_def flush_def initial_state_def)
next
  case False
  have "map (\<lambda>t. (t, [(0, (t, angle))])) (butlast (steady_times n)) @ [(last (steady_times n), [(0, (last (steady_times n), angle))])]
     = map (\<lambda>t. (t, [(0, (t, angle))])) (butlast (steady_times n) @ [last (steady_times n)])"
    by simp
  also have "\<dots> = map (\<lambda>t. (t, [(0, (t, angle))])) (steady_times n)"
    using False by simp
  finally show ?thesis
    using cycle_loop_one_sensor [OF assms False, of initial_state 0]
    by (simp add: steady_rows_map group_reading_cycles_def flush_def initial_state_def)
qed

lemma one_sensor_keys:
  "ts \<noteq> [] \<Longrightarrow> set (map fst (all_readings (map (\<lambda>t. (t, [(sid, (t, a))])) ts))) = {sid}"
  by (cases ts) (auto simp: all_readings_def)

lemma steady_rows_bounded: 
  "\<bar>ax\<bar> \<le> 10000 \<Longrightarrow> \<bar>ay\<bar> \<le> 10000 \<Longrightarrow> \<bar>az\<bar> \<le> 10000 \<Longrightarrow> n \<le> 1000 \<Longrightarrow>
   list_all bounded_row (steady_rows ax ay az n)"
  by (auto simp: steady_rows_def list_all_iff bounded_row_def field_bound_def)

lemma map_of_generated:
  "map_of (map (\<lambda>t. (t, g t)) ts) t = (if t \<in> set ts then Some (g t) else None)"
  by (induction ts) auto

lemma sort_keys_eq:
  assumes "distinct xs" "set xs = set ys" "sorted ys" "distinct ys"
  shows "sort xs = ys"
  using assms by (intro sorted_distinct_set_unique) auto

text \<open>The loop over the sampled timestamps when every frame is emitted, when none is,
  and over two lists in a row.\<close>

lemma build_spine_curves_all:
  assumes "\<And>t. t \<in> set S \<Longrightarrow>
     \<exists>fr. map_of tf t = Some fr \<and> list_ex (\<lambda>a. a \<noteq> 0) (frame_angles_of fr so) \<and> \<bar>t\<bar> < float_limit"
  shows "\<exists>sc. build_spine_curves tf so acc S = Inr sc \<and> length sc = length acc + length S"
  using assms
proof (induction S arbitrary: acc)
  case Nil
  then show ?case by simp
next
  case (Cons t S)
  from Cons.prems [of t] obtain fr where fr: "map_of tf t = Some fr"
    and ex: "list_ex (\<lambda>a. a \<noteq> 0) (frame_angles_of fr so)" and lim: "\<bar>t\<bar> < float_limit"
    by auto
  let ?acc = "acc @ [\<lparr>f_time = real_of_int t / 1000,
      f_points = build_spine_from_angles (frame_angles_of fr so) 9,
      f_angles = frame_angles_of fr so\<rparr>]"
  from Cons.IH [of ?acc] Cons.prems obtain sc where
    "build_spine_curves tf so ?acc S = Inr sc" "length sc = length ?acc + length S"
    by auto
  then show ?case
    using fr ex lim by (simp add: Let_def float_of_int_def)
qed

lemma build_spine_curves_none:
  assumes "\<And>t fr. t \<in> set S \<Longrightarrow> map_of tf t = Some fr \<Longrightarrow>
     \<not> list_ex (\<lambda>a. a \<noteq> 0) (frame_angles_of fr so)"
  shows "build_spine_curves tf so acc S = Inr acc"
  using assms
proof (induction S)
  case Nil
  then show ?case by simp
next
  case (Cons t S)
  then show ?case
    by (cases "map_of tf t") (auto simp: Let_def)
qed

lemma build_spine_curves_append:
  "build_spine_curves tf so acc (S1 @ S2)
   = ebind (build_spine_curves tf so acc S1) (\<lambda>acc'. build_spine_curves tf so acc' S2)"
proof (induction S1 arbitrary: acc)
  case Nil
  then show ?case by simp
next
  case (Cons t S1)
  show ?case
  proof (cases "map_of tf t")
    case None
    then show ?thesis by (simp add: Cons)
  next
    case (Some fr)
    then show ?thesis
      by (cases "float_of_int t") (simp_all add: Cons Let_def)
  qed
qed

text \<open>The session of 501 cycles.\<close>

lemma trim_rows_501: "fst (trim_rows rows_501) = steady_rows 1000 1000 0 501"
  unfolding rows_501_def
  by (rule trim_sandwich) (auto simp: steady_rows_def)

text \<open>
  Claim C3 (a defect of the code). The stride \<^verbatim>\<open>max(1, len(timestamps)//500)\<close> rounds
  down, so 501 timestamps are sampled with stride 1 and all 501 frames are emitted,
  against the bound of 500 that the claim and the comment \<^verbatim>\<open># Max 500 frames\<close> state.
\<close>

theorem sampler_emits_501_frames:
  "frame_count (analyze_rows ''log.csv'' rows_501) = Some 501"
proof -
  let ?rows = "steady_rows 1000 1000 0 501"
  let ?ts = "steady_times 501"
  let ?cycles = "map (\<lambda>t. (t, [(0, (t, 45))])) ?ts"
  have ne: "?rows \<noteq> []" by (simp add: steady_rows_def)
  have rne: "rows_501 \<noteq> []" by (simp add: rows_501_def)
  have tne: "fst (trim_rows rows_501) \<noteq> []" by (simp add: trim_rows_501 ne)
  have b: "list_all bounded_row (fst (trim_rows rows_501))"
    by (simp add: trim_rows_501 steady_rows_bounded)
  from analyze_rows_with_total [OF rne tne b, of sample_stride "''log.csv''"]
  obtain res where a: "analyze_rows ''log.csv'' rows_501 = Inr (Some res)"
    by (auto simp: analyze_rows_def)
  have g: "group_reading_cycles ?rows = Inr ?cycles"
    by (rule group_steady [OF angle_45])
  from a have ac: "analyze_cycles sample_stride ''log.csv'' (length ?rows) ?cycles = Inr res"
    by (auto simp: analyze_rows_def analyze_rows_with_Some trim_rows_501 g)
  have keys: "map fst ?cycles = ?ts" by (simp add: o_def)
  have tf: "build_time_frames ?cycles = map (\<lambda>t. (t, [(0, 45)])) ?ts"
    by (subst time_frames_fresh) (simp_all add: keys steady_times_sorted o_def)
  have tfk: "map fst (build_time_frames ?cycles) = ?ts"
    by (simp add: tf o_def)
  from analyze_cycles_Inr [OF ac] obtain sd sc where
    sd: "build_sensor_data [] ?cycles = Inr sd"
    and sc: "build_spine_curves (build_time_frames ?cycles) (sort (map fst sd)) []
          (slice_step (sample_stride (length (build_time_frames ?cycles))) 0
             (sort (map fst (build_time_frames ?cycles)))) = Inr sc"
    and res: "r_spine_curves res = sc"
    by (auto simp: summary_fields)
  have "set (map fst sd) = {0}" "distinct (map fst sd)"
    using build_sensor_data_props [OF sd] one_sensor_keys [OF steady_times_nonempty, of 501 0 45]
    by simp_all
  then have so: "sort (map fst sd) = [0]"
    by (intro sort_keys_eq) auto
  have sorted_ts: "sort ?ts = ?ts"
    by (rule sorted_sort_id) (rule steady_times_sorted)
  have sampled: "slice_step (sample_stride (length (build_time_frames ?cycles))) 0
             (sort (map fst (build_time_frames ?cycles))) = ?ts"
  proof -
    have len: "length (build_time_frames ?cycles) = 501"
      by (simp add: tf steady_times_length)
    have "sample_stride 501 = 1" by (simp add: sample_stride_def)
    then show ?thesis
      unfolding tfk sorted_ts len by (simp only: slice_step_one)
  qed
  have "\<exists>sc'. build_spine_curves (build_time_frames ?cycles) [0] [] ?ts = Inr sc'
      \<and> length sc' = length ([] :: frame list) + length ?ts"
  proof (rule build_spine_curves_all)
    fix t assume t: "t \<in> set ?ts"
    then have "\<bar>t\<bar> < float_limit"
      using steady_times_range [OF t] by (simp add: float_limit_def)
    with t show "\<exists>fr. map_of (build_time_frames ?cycles) t = Some fr
        \<and> list_ex (\<lambda>a. a \<noteq> 0) (frame_angles_of fr [0]) \<and> \<bar>t\<bar> < float_limit"
      by (simp add: tf map_of_generated frame_angles_of_def)
  qed
  with sc have "length sc = 501"
    by (auto simp: so sampled steady_times_length)
  with a res show ?thesis
    by (simp add: frame_count_def)
qed

text \<open>The session of 1000 cycles: the points of its one bent frame, whose middle point
  is off the chord, and its cycles and time frames.\<close>

lemma rad45: "radians 45 = pi / 4"
  by (simp add: radians_def)

lemma rad0: "radians 0 = 0"
  by (simp add: radians_def)

lemma integrate_bent:
  "integrate (9 / 100) [45, 0, 0] [2, 1, 0] (0, - (27 / 200))
   = [(0, - (9 / 200)), (0, 9 / 200), (9 / 100 * (sqrt 2 / 2), 9 / 200 + 9 / 100 * (sqrt 2 / 2))]"
  by (simp add: Let_def rad45 rad0 sin_45 cos_45)

lemma centered_bent:
  "centered_locs [0, 0, 45] 9 =
     center [(9 / 100 * (sqrt 2 / 2), 9 / 200 + 9 / 100 * (sqrt 2 / 2)), (0, 9 / 200), (0, - (9 / 200))]"
proof -
  have r: "rev [0..<length [0::real, 0, 45]] = [2, 1, 0]"
    by (simp add: upt_conv_Cons)
  have s: "(0, - real (length [0::real, 0, 45]) * (9 / 100) * 0.5) = (0::real, - (27 / 200) :: real)"
    by simp
  have m: "map (\<lambda>a. a - 0) (rev [0::real, 0, 45]) = [45, 0, 0]"
    by simp
  show ?thesis
    unfolding centered_locs_def Let_def r s m integrate_bent by simp
qed

lemma bent_points: "build_spine_from_angles [0, 0, 45] 9 =
   [(3 * sqrt 2, 3 + 3 * sqrt 2), (- (3 * sqrt 2 / 2), 3 - 3 * sqrt 2 / 2),
    (- (3 * sqrt 2 / 2), - 6 - 3 * sqrt 2 / 2)]"
  unfolding build_spine_from_angles_def centered_bent
  by (simp add: center_def Let_def) argo

lemma sqrt2_bounds: "1 < sqrt 2" "sqrt 2 < 2"
  by (simp_all add: real_less_lsqrt)

lemma bent_curvature:
  "\<exists>mc. curvature_loop 0 [\<lparr>f_time = t, f_points = build_spine_from_angles [0, 0, 45] 9,
                               f_angles = [0, 0, 45]\<rparr>] = Inr mc \<and> 0 < mc"
proof -
  let ?f = "(3 * sqrt 2, 3 + 3 * sqrt 2)"
  let ?p = "(- (3 * sqrt 2 / 2), 3 - 3 * sqrt 2 / 2)"
  let ?l = "(- (3 * sqrt 2 / 2), - 6 - 3 * sqrt 2 / 2)"
  define N :: real where
    "N = (snd ?l - snd ?f) * fst ?p - (fst ?l - fst ?f) * snd ?p + fst ?l * snd ?f
           - snd ?l * fst ?f"
  define D :: real where "D = sqrt ((snd ?l - snd ?f)\<^sup>2 + (fst ?l - fst ?f)\<^sup>2)"
  have ne: "?f \<noteq> ?l" using sqrt2_bounds by auto
  have "D \<noteq> 0"
    unfolding D_def using ne chord_length_zero [of ?l ?f] by blast
  moreover have "0 \<le> D"
    unfolding D_def by (rule real_sqrt_ge_zero) simp
  ultimately have D: "0 < D" by simp
  have "N = 81 * sqrt 2 / 2"
    unfolding N_def by (simp add: algebra_simps)
  moreover have "0 < 81 * sqrt 2 / 2" by simp
  ultimately have "0 < \<bar>N\<bar>" by linarith
  then have mc: "0 < \<bar>N\<bar> / D" using D by (rule divide_pos_pos)
  have "curvature_loop 0 [\<lparr>f_time = t, f_points = build_spine_from_angles [0, 0, 45] 9,
                               f_angles = [0, 0, 45]\<rparr>] = Inr (max 0 (\<bar>N\<bar> / D))"
    using ne \<open>D \<noteq> 0\<close> unfolding bent_points N_def D_def
    by (simp add: py_div_def del: real_sqrt_eq_zero_cancel_iff)
  with mc show ?thesis by (simp add: max_def)
qed

lemma trim_rows_bent: "fst (trim_rows rows_bent) = steady_rows 8192 0 0 999 @ bent_cycle_rows"
  unfolding rows_bent_def
  by (rule trim_sandwich) (auto simp: steady_rows_def bent_cycle_rows_def)

lemma group_bent:
  "group_reading_cycles (steady_rows 8192 0 0 999 @ bent_cycle_rows) = Inr bent_cycles"
proof -
  let ?ts = "steady_times 999"
  let ?s1 = "\<lparr>reading_cycles = map (\<lambda>t. (t, [(0, (t, 0))])) (butlast ?ts),
             current_cycle = [(0, (last ?ts, 0))],
             current_cycle_start_time = Some (last ?ts)\<rparr>"
  have ne: "?ts \<noteq> []" by (rule steady_times_nonempty) simp
  have fi: "flush initial_state = []" by (simp add: flush_def initial_state_def)
  have st: "current_cycle_start_time initial_state = None
      \<or> 0 \<in> fst ` set (current_cycle initial_state)"
    by (simp add: initial_state_def)
  have s1: "cycle_loop initial_state (map (\<lambda>t. (t, 0, 8192, 0, 0)) ?ts) = Inr ?s1"
    using cycle_loop_one_sensor [OF angle_at_rest ne st] unfolding fi by simp
  have "flush ?s1 = map (\<lambda>t. (t, [(0, (t, 0))])) (butlast ?ts @ [last ?ts])"
    by (simp add: flush_def)
  also have "butlast ?ts @ [last ?ts] = ?ts"
    using ne by (rule append_butlast_last_id)
  finally have f1: "flush ?s1 = map (\<lambda>t. (t, [(0, (t, 0))])) ?ts" .
  let ?s2 = "\<lparr>reading_cycles = flush ?s1,
            current_cycle = [(0, (600000, 0)), (1, (600001, 0)), (2, (600002, 45))],
            current_cycle_start_time = Some 600000\<rparr>"
  have s2: "cycle_loop ?s1 bent_cycle_rows = Inr ?s2"
    by (simp add: bent_cycle_rows_def angle_at_rest angle_45 cycle_step_def
        starts_new_cycle_def CYCLE_WINDOW_MS_def)
  have f2: "flush ?s2 = bent_cycles"
    unfolding bent_cycles_def f1 [symmetric] by (simp add: flush_def)
  show ?thesis
    unfolding group_reading_cycles_def cycle_loop_append steady_rows_map s1 ebind_Inr s2 f2 ..
qed

lemma bent_keys: "map fst bent_cycles = steady_times 999 @ [600000]"
  by (simp add: bent_cycles_def o_def)

lemma bent_times_sorted:
  "sorted (steady_times 999 @ [600000])" "distinct (steady_times 999 @ [600000])"
  using steady_times_range [of _ 999]
  by (auto simp: sorted_append steady_times_sorted dest!: steady_times_range)

lemma bent_time_frames: "build_time_frames bent_cycles = bent_frames"
proof -
  have "distinct (map fst bent_cycles)"
    unfolding bent_keys by (rule bent_times_sorted)
  then have "build_time_frames bent_cycles
    = map (\<lambda>(cycle_time, cycle_data).
             (cycle_time, map (\<lambda>(sid, (ts, angle)). (sid, angle)) cycle_data)) bent_cycles"
    by (rule time_frames_fresh)
  also have "\<dots> = bent_frames"
    by (simp add: bent_cycles_def bent_frames_def)
  finally show ?thesis .
qed

lemma bent_frames_lookup:
  "t \<in> set (steady_times 999) \<Longrightarrow> map_of bent_frames t = Some [(0, 0)]"
  "map_of bent_frames 600000 = Some [(0, 0), (1, 0), (2, 45)]"
proof -
  have "600000 \<notin> set (steady_times 999)"
    using steady_times_range [of 600000 999] by auto
  then show "map_of bent_frames 600000 = Some [(0, 0), (1, 0), (2, 45)]"
    by (simp add: bent_frames_def map_add_def map_of_generated)
  show "map_of bent_frames t = Some [(0, 0)]" if "t \<in> set (steady_times 999)"
    using that by (simp add: bent_frames_def map_add_def map_of_generated)
qed

lemma bent_rows_ok:
  "rows_bent \<noteq> []" "fst (trim_rows rows_bent) \<noteq> []"
  "list_all bounded_row (fst (trim_rows rows_bent))"
proof -
  show "rows_bent \<noteq> []" by (simp add: rows_bent_def)
  show "fst (trim_rows rows_bent) \<noteq> []" by (simp add: trim_rows_bent bent_cycle_rows_def)
  have "list_all bounded_row bent_cycle_rows"
    by (simp add: bent_cycle_rows_def bounded_row_def field_bound_def)
  then show "list_all bounded_row (fst (trim_rows rows_bent))"
    by (simp add: trim_rows_bent steady_rows_bounded)
qed

lemma bent_outcome:
  "\<exists>res sc mc. analyze_rows_with stride ''log.csv'' rows_bent = Inr (Some res)
     \<and> build_spine_curves bent_frames [0, 1, 2] []
          (slice_step (stride 1000) 0 (steady_times 999 @ [600000])) = Inr sc
     \<and> curvature_loop 0 sc = Inr mc \<and> r_max_curvature res = mc"
proof -
  let ?kept = "steady_rows 8192 0 0 999 @ bent_cycle_rows"
  from analyze_rows_with_total [OF bent_rows_ok, of stride "''log.csv''"]
  obtain res where a: "analyze_rows_with stride ''log.csv'' rows_bent = Inr (Some res)" ..
  then have ac: "analyze_cycles stride ''log.csv'' (length ?kept) bent_cycles = Inr res"
    by (auto simp: analyze_rows_with_Some trim_rows_bent group_bent)
  have tfk: "map fst bent_frames = steady_times 999 @ [600000]"
    by (simp add: bent_frames_def o_def)
  have len: "length bent_frames = 1000"
    by (simp add: bent_frames_def steady_times_length)
  have srt: "sort (steady_times 999 @ [600000]) = steady_times 999 @ [600000]"
    by (rule sorted_sort_id) (rule bent_times_sorted)
  from analyze_cycles_Inr [OF ac] obtain sd sc mc where
    sd: "build_sensor_data [] bent_cycles = Inr sd"
    and sc: "build_spine_curves bent_frames (sort (map fst sd)) []
          (slice_step (stride 1000) 0 (steady_times 999 @ [600000])) = Inr sc"
    and mc: "curvature_loop 0 sc = Inr mc" and res: "r_max_curvature res = mc"
    unfolding bent_time_frames tfk len srt by (auto simp: summary_fields)
  have ne: "steady_times 999 \<noteq> []" by (rule steady_times_nonempty) simp
  have "set (map fst (all_readings bent_cycles)) = {0, 1, 2}"
    using one_sensor_keys [OF ne, of 0 0] by (auto simp: bent_cycles_def all_readings_def)
  then have "set (map fst sd) = {0, 1, 2}" "distinct (map fst sd)"
    using build_sensor_data_props [OF sd] by simp_all
  then have "sort (map fst sd) = [0, 1, 2]"
    by (intro sort_keys_eq) auto
  with a sc mc res show ?thesis by auto
qed





text \<open>
  Claim C6. Whenever the analysis returns a result, its \<open>total_rom\<close> is the maximum minus
  the minimum of the angles of all readings of all cycles (and 0 if there were none),
  and these angles are, in order, the angles computed from the rows that the trimming
  keeps.
\<close>

theorem total_rom_recomputed:
  assumes "analyze_rows f rows = Inr (Some res)"
  shows "\<exists>cycles. group_reading_cycles (fst (trim_rows rows)) = Inr cycles
     \<and> map Inr (cycle_angles cycles) = map row_angle (fst (trim_rows rows))
     \<and> r_total_rom res = max_minus_min (cycle_angles cycles)"
proof -
  let ?rows = "fst (trim_rows rows)"
  from assms obtain cycles where
    g: "group_reading_cycles ?rows = Inr cycles"
    and a: "analyze_cycles sample_stride f (length ?rows) cycles = Inr res"
    by (auto simp: analyze_rows_def analyze_rows_with_Some)
  from analyze_cycles_Inr [OF a] obtain sd sc mc d where
    sd: "build_sensor_data [] cycles = Inr sd"
    and res: "res = summary f (length ?rows) sd (sort (map fst sd)) sc d mc"
    by blast
  have m: "mset (sd_angles sd) = mset (cycle_angles cycles)"
    using build_sensor_data_props [OF sd] by (simp add: sd_angles_def cycle_angles_def)
  then have "set (sd_angles sd) = set (cycle_angles cycles)"
    by (rule mset_eq_setD)
  moreover have "sd_angles sd = [] \<longleftrightarrow> cycle_angles cycles = []"
    using m by (metis mset_zero_iff)
  ultimately have "rom (sd_angles sd) = max_minus_min (cycle_angles cycles)"
    by (simp add: rom_eq max_minus_min_def)
  with g readings_of_rows(3) [OF g] res show ?thesis
    by (auto simp: summary_fields)
qed

theorem total_rom_recomputed_witness:
  "\<exists>res. analyze_rows ''log.csv'' rows0 = Inr (Some res) \<and> r_total_rom res = 45"
proof -
  obtain res where a: "analyze_rows ''log.csv'' rows0 = Inr (Some res)"
    using analyze_rows0 by blast
  from total_rom_recomputed [OF a] have "r_total_rom res = 45"
    by (auto simp: trim_rows0 cycles_rows0 cycle_angles_def all_readings_def max_minus_min_def)
  with a show ?thesis by blast
qed

text \<open>
  Claim C10. Whenever the analysis returns a result, the readings of the emitted
  cycles are, in order, the rows kept by the trimming (sensor, timestamp and computed
  angle), each row once; no cycle holds a sensor twice, so no reading was overwritten;
  the numbers of readings of the cycles add up to the number of kept rows, which is the
  field \<open>samples\<close>; and the field \<open>sensors\<close> is the number of distinct sensor ids among the
  kept rows.
\<close>

theorem samples_conserved:
  assumes "analyze_rows f rows = Inr (Some res)"
  shows "\<exists>cycles. group_reading_cycles (fst (trim_rows rows)) = Inr cycles
     \<and> map emitted (all_readings cycles) = map row_reading (fst (trim_rows rows))
     \<and> list_all (\<lambda>(start, c). distinct (map fst c)) cycles
     \<and> sum_list (map (\<lambda>(start, c). length c) cycles) = length (fst (trim_rows rows))
     \<and> r_samples res = length (fst (trim_rows rows))
     \<and> r_sensors res = card (set (map (\<lambda>r. fst (snd r)) (fst (trim_rows rows))))"
proof -
  let ?rows = "fst (trim_rows rows)"
  from assms obtain cycles where
    g: "group_reading_cycles ?rows = Inr cycles"
    and a: "analyze_cycles sample_stride f (length ?rows) cycles = Inr res"
    by (auto simp: analyze_rows_def analyze_rows_with_Some)
  from analyze_cycles_Inr [OF a] obtain sd sc mc d where
    sd: "build_sensor_data [] cycles = Inr sd"
    and res: "res = summary f (length ?rows) sd (sort (map fst sd)) sc d mc"
    by blast
  have d: "list_all (\<lambda>(start, c). distinct (map fst c)) cycles"
    using group_cycles_ok [OF g] by (auto simp: list_all_iff cycle_ok_def)
  have "sum_list (map (\<lambda>(start, c). length c) cycles) = length (all_readings cycles)"
    by (simp add: all_readings_def length_concat o_def case_prod_unfold)
  then have l: "sum_list (map (\<lambda>(start, c). length c) cycles) = length ?rows"
    by (simp only: readings_of_rows(4) [OF g])
  have "distinct (map fst sd)" "set (map fst sd) = set (map fst (all_readings cycles))"
    using build_sensor_data_props [OF sd] by auto
  then have "length sd = card (set (map fst (all_readings cycles)))"
    by (metis distinct_card length_map)
  then have s: "length sd = card (set (map (\<lambda>r. fst (snd r)) ?rows))"
    by (simp only: readings_of_rows(2) [OF g])
  from g group_cycles_readings [OF g] d l s res show ?thesis
    by (auto simp: summary_fields)
qed

theorem samples_conserved_witness:
  "\<exists>res. analyze_rows ''log.csv'' rows0 = Inr (Some res) \<and> r_samples res = 2 \<and> r_sensors res = 2"
proof -
  obtain res where a: "analyze_rows ''log.csv'' rows0 = Inr (Some res)"
    using analyze_rows0 by blast
  from samples_conserved [OF a] have "r_samples res = 2 \<and> r_sensors res = 2"
    by (auto simp: trim_rows0)
  with a show ?thesis by blast
qed

text \<open>
  Claim C4, as amended. Whenever the analysis returns a result, the analysis without
  sampling returns one too, and the two agree on \<open>total_rom\<close>, \<open>upper_rom\<close>, \<open>middle_rom\<close>,
  \<open>lower_rom\<close>, \<open>sensor_roms\<close>, \<open>avg_angle\<close>, \<open>movement_score\<close> and \<open>duration\<close>. The field
  \<open>max_curvature\<close> is computed from the sampled frames and is not among them.
\<close>

theorem sampling_keeps_series_metrics:
  assumes "analyze_rows f rows = Inr (Some r1)"
  shows "\<exists>r2. analyze_rows_unsampled f rows = Inr (Some r2)
     \<and> r_total_rom r2 = r_total_rom r1 \<and> r_upper_rom r2 = r_upper_rom r1
     \<and> r_middle_rom r2 = r_middle_rom r1 \<and> r_lower_rom r2 = r_lower_rom r1
     \<and> r_sensor_roms r2 = r_sensor_roms r1 \<and> r_avg_angle r2 = r_avg_angle r1
     \<and> r_movement_score r2 = r_movement_score r1 \<and> r_duration r2 = r_duration r1"
proof -
  from analyze_rows_with_stride [of sample_stride f rows r1 "\<lambda>n. 1"] assms
  obtain r2 where a: "analyze_rows_unsampled f rows = Inr (Some r2)"
    and r: "r2 = r1\<lparr>r_max_curvature := r_max_curvature r2, r_spine_curves := r_spine_curves r2\<rparr>"
    by (auto simp: analyze_rows_def analyze_rows_unsampled_def)
  have "r_total_rom r2 = r_total_rom r1" "r_upper_rom r2 = r_upper_rom r1"
    "r_middle_rom r2 = r_middle_rom r1" "r_lower_rom r2 = r_lower_rom r1"
    "r_sensor_roms r2 = r_sensor_roms r1" "r_avg_angle r2 = r_avg_angle r1"
    "r_movement_score r2 = r_movement_score r1" "r_duration r2 = r_duration r1"
    by (subst r, simp)+
  with a show ?thesis by blast
qed

theorem sampling_keeps_series_metrics_witness:
  "\<exists>r1 r2. analyze_rows ''log.csv'' rows0 = Inr (Some r1)
     \<and> analyze_rows_unsampled ''log.csv'' rows0 = Inr (Some r2)
     \<and> r_total_rom r2 = r_total_rom r1 \<and> r_duration r2 = r_duration r1"
proof -
  obtain r1 where a: "analyze_rows ''log.csv'' rows0 = Inr (Some r1)"
    using analyze_rows0 by blast
  from sampling_keeps_series_metrics [OF a] a show ?thesis by blast
qed

text \<open>
  The claim includes \<open>max_curvature\<close> among the fields that the sampling leaves
  unchanged. In the session of 1000 cycles the stride is 2, the bent frame is the last
  of the 1000 and is not sampled, and every sampled frame has all angles zero and is
  not emitted: \<open>max_curvature\<close> is 0 with the sampling of the source and positive
  without sampling.
\<close>

theorem sampling_changes_max_curvature_counterexample:
  "curvature_of (analyze_rows ''log.csv'' rows_bent) = Some 0
   \<and> curvature_of (analyze_rows_unsampled ''log.csv'' rows_bent) \<noteq> Some 0
   \<and> curvature_of (analyze_rows_unsampled ''log.csv'' rows_bent) \<noteq> None"
proof -
  let ?ts = "steady_times 999"
  have flat: "\<not> list_ex (\<lambda>a. a \<noteq> 0) (frame_angles_of fr [0, 1, 2])"
    if "t \<in> set ?ts" "map_of bent_frames t = Some fr" for t fr
    using that bent_frames_lookup(1) [OF that(1)] by (auto simp: frame_angles_of_def)
  have none: "build_spine_curves bent_frames [0, 1, 2] [] S = Inr []" if "set S \<subseteq> set ?ts" for S
    using that flat by (intro build_spine_curves_none) blast
  \<comment> \<open>with the stride of the source\<close>
  have odd: "odd (length ?ts)" by (simp add: steady_times_length)
  have "sample_stride 1000 = 2" by (simp add: sample_stride_def)
  then have sampled: "slice_step (sample_stride 1000) 0 (?ts @ [600000]) = slice_step 2 0 ?ts"
    using odd by (simp add: slice_step_two_snoc)
  from bent_outcome [of sample_stride] obtain r1 sc1 mc1 where
    a1: "analyze_rows ''log.csv'' rows_bent = Inr (Some r1)"
    and sc1: "build_spine_curves bent_frames [0, 1, 2] [] (slice_step 2 0 ?ts) = Inr sc1"
    and mc1: "curvature_loop 0 sc1 = Inr mc1" "r_max_curvature r1 = mc1"
    unfolding sampled analyze_rows_def by blast
  have "sc1 = []" using sc1 none [OF slice_step_subset] by simp
  with mc1 have "r_max_curvature r1 = 0" by simp
  with a1 have 1: "curvature_of (analyze_rows ''log.csv'' rows_bent) = Some 0"
    by (simp add: curvature_of_def)
  \<comment> \<open>without sampling\<close>
  from bent_outcome [of "\<lambda>n. 1"] obtain r2 sc2 mc2 where
    a2: "analyze_rows_unsampled ''log.csv'' rows_bent = Inr (Some r2)"
    and sc2: "build_spine_curves bent_frames [0, 1, 2] [] (?ts @ [600000]) = Inr sc2"
    and mc2: "curvature_loop 0 sc2 = Inr mc2" "r_max_curvature r2 = mc2"
    unfolding analyze_rows_unsampled_def slice_step_one by blast
  have "sc2 = [\<lparr>f_time = 600, f_points = build_spine_from_angles [0, 0, 45] 9,
                 f_angles = [0, 0, 45]\<rparr>]"
    using sc2 unfolding build_spine_curves_append none [OF subset_refl] ebind_Inr
    by (simp add: bent_frames_lookup(2) frame_angles_of_def float_of_int_def float_limit_def
        Let_def)
  with mc2 bent_curvature [of 600] have "0 < r_max_curvature r2" by auto
  with a2 have 2: "curvature_of (analyze_rows_unsampled ''log.csv'' rows_bent) \<noteq> Some 0"
    "curvature_of (analyze_rows_unsampled ''log.csv'' rows_bent) \<noteq> None"
    by (simp_all add: curvature_of_def)
  from 1 2 show ?thesis by blast
qed

end
